theory Spec2Isabelle
  imports Main "HOL-Library.AList" "HOL-Library.Sublist"
begin

section \<open>Python primitives used by the coverage scripts\<close>

text \<open>
  The scripts of this repository read an \<^verbatim>\<open>llvm-cov export\<close> document, keep the
  regions of the project's own source files that lie before the test section of each
  file, and record them in a dictionary keyed by a string built from the file name and
  the region's coordinates. The exceptions the modelled code can raise are values.
\<close>

datatype py_error = AssertionError | IndexError | FileNotFoundError | JSONDecodeError

text \<open>\<^verbatim>\<open>p in l\<close> on strings: \<open>p\<close> occurs in \<open>l\<close> as a contiguous substring.\<close>

fun str_in :: "string \<Rightarrow> string \<Rightarrow> bool" where
  "str_in p [] = (p = [])"
| "str_in p (c # cs) = (prefix p (c # cs) \<or> str_in p cs)"

text \<open>\<^verbatim>\<open>str(i)\<close> on an integer: decimal digits, with a leading minus sign below zero.\<close>

definition digit_char :: "nat \<Rightarrow> char" where
  "digit_char d = ''0123456789'' ! d"

fun str_nat :: "nat \<Rightarrow> string" where
  "str_nat n = (if n < 10 then [digit_char n] else str_nat (n div 10) @ [digit_char (n mod 10)])"

declare str_nat.simps [simp del]

definition py_str :: "int \<Rightarrow> string" where
  "py_str i = (if i < 0 then CHR ''-'' # str_nat (nat (- i)) else str_nat (nat i))"

text \<open>
  A dictionary is an association list in insertion order: \<^verbatim>\<open>d[k] = v\<close> is
  \<^const>\<open>AList.update\<close> (replace in place, or append a new key), \<^verbatim>\<open>k in d\<close> and
  \<^verbatim>\<open>d[k]\<close> read through \<^const>\<open>map_of\<close>, \<^verbatim>\<open>len(d)\<close> is \<^const>\<open>length\<close>.
\<close>

definition dict_get :: "('k \<times> 'v) list \<Rightarrow> 'k \<Rightarrow> 'v \<Rightarrow> 'v" where
  "dict_get d k dflt = (case map_of d k of None \<Rightarrow> dflt | Some v \<Rightarrow> v)"

section \<open>The raw export\<close>

text \<open>
  One entry of a function's \<^verbatim>\<open>regions\<close> list. The scripts read positions 0 to 4 of
  the entry: start line, start column, end line, end column and execution count; the
  export's further positions are never read.
\<close>

record region =
  lst :: int
  col_st :: int
  led :: int
  col_ed :: int
  count :: int

record func =
  filenames :: "string list"
  regions :: "region list"

text \<open>
  What a run reads from its surroundings: the working directory
  (\<^verbatim>\<open>os.getcwd()\<close>) and the source files, each as the list of its lines
  (\<^verbatim>\<open>readlines()\<close>).
\<close>

record env =
  cwd :: string
  files :: "string \<rightharpoonup> string list"

text \<open>
  The dictionary key of a region:
  \<^verbatim>\<open>filename + '/' + str(lst) + '/' + str(regions[1]) + '/' + str(led) + '/' + str(regions[3])\<close>.
\<close>

definition region_key :: "string \<Rightarrow> region \<Rightarrow> string" where
  "region_key filename r =
     filename @ ''/'' @ py_str (lst r) @ ''/'' @ py_str (col_st r) @ ''/'' @
     py_str (led r) @ ''/'' @ py_str (col_ed r)"

section \<open>\<^verbatim>\<open>parse_file\<close>: the line limit of a source file\<close>

text \<open>
  The loop shared by the variants of \<^verbatim>\<open>parse_file\<close>: \<open>ans\<close> is incremented for every
  line that is not a marker, and the loop breaks at the first marker line.
\<close>

fun scan_lines :: "(string \<Rightarrow> bool) \<Rightarrow> string list \<Rightarrow> int \<Rightarrow> int" where
  "scan_lines mk [] ans = ans"
| "scan_lines mk (l # ls) ans = (if mk l then ans else scan_lines mk ls (ans + 1))"

text \<open>\<^verbatim>\<open>rulf/collect_cov.py\<close>: the marker is \<^verbatim>\<open>#[cfg(test)]\<close>.\<close>

definition rulf_marker :: "string \<Rightarrow> bool" where
  "rulf_marker l = str_in ''#[cfg(test)]'' l"

definition rulf_parse_file :: "string list \<Rightarrow> int" where
  "rulf_parse_file ls = scan_lines rulf_marker ls 1"

text \<open>\<^verbatim>\<open>llm_4_base_cov/main.py\<close>: the markers are \<^verbatim>\<open>mod tests\<close> and \<^verbatim>\<open>#[cfg(test)]\<close>.\<close>

definition base4_marker :: "string \<Rightarrow> bool" where
  "base4_marker l = (str_in ''mod tests'' l \<or> str_in ''#[cfg(test)]'' l)"

definition base4_parse_file :: "string list \<Rightarrow> int" where
  "base4_parse_file ls = scan_lines base4_marker ls 1"

text \<open>\<^verbatim>\<open>rug-gpt/cov_collect.py\<close>: the markers are \<^verbatim>\<open>fuzzdriver_\<close> and \<^verbatim>\<open>#[cfg(test)]\<close>.\<close>

definition rug_marker :: "string \<Rightarrow> bool" where
  "rug_marker l = (str_in ''fuzzdriver_'' l \<or> str_in ''#[cfg(test)]'' l)"

definition rug_parse_file :: "string list \<Rightarrow> int" where
  "rug_parse_file ls = scan_lines rug_marker ls 1"

text \<open>
  \<^verbatim>\<open>rusty-unit-18/t.py\<close>: a marker line ends the scan only when the line after it
  starts with \<^verbatim>\<open>mod\<close>; \<^verbatim>\<open>ls[i+1]\<close> is read without a bound check, so a marker on
  the last line raises.
\<close>

fun ru18_scan :: "string list \<Rightarrow> int \<Rightarrow> py_error + int" where
  "ru18_scan [] ans = Inr ans"
| "ru18_scan (l # ls) ans =
     (if rug_marker l then
        (case ls of
           [] \<Rightarrow> Inl IndexError
         | nx # _ \<Rightarrow> if prefix ''mod'' nx then Inr ans else ru18_scan ls (ans + 1))
      else ru18_scan ls (ans + 1))"

definition ru18_parse_file :: "string list \<Rightarrow> py_error + int" where
  "ru18_parse_file ls = ru18_scan ls 1"

section \<open>The loop over the function records\<close>

text \<open>
  \<^verbatim>\<open>if filename not in map: map[filename] = parse_file(filename)\<close> followed by
  \<^verbatim>\<open>limit = map[filename]\<close>, the same lines in every variant. Opening a file that does
  not exist raises.
\<close>

type_synonym cache = "string \<rightharpoonup> int"

definition cached_limit ::
  "(string list \<Rightarrow> py_error + int) \<Rightarrow> env \<Rightarrow> cache \<Rightarrow> string \<Rightarrow> py_error + (cache \<times> int)" where
  "cached_limit pf e mp filename =
     (case mp filename of
        Some v \<Rightarrow> Inr (mp, v)
      | None \<Rightarrow>
          (case files e filename of
             None \<Rightarrow> Inl FileNotFoundError
           | Some ls \<Rightarrow>
               (case pf ls of
                  Inl err \<Rightarrow> Inl err
                | Inr v \<Rightarrow> Inr (mp(filename \<mapsto> v), v))))"

text \<open>
  \<^verbatim>\<open>for func in obj['data'][0]['functions']\<close>: the body runs on each record in turn, and
  an exception raised by the body ends the loop.
\<close>

fun funcs_loop :: "('f \<Rightarrow> 's \<Rightarrow> py_error + 's) \<Rightarrow> 'f list \<Rightarrow> 's \<Rightarrow> py_error + 's" where
  "funcs_loop body [] st = Inr st"
| "funcs_loop body (fn # fns) st =
     (case body fn st of Inl err \<Rightarrow> Inl err | Inr st' \<Rightarrow> funcs_loop body fns st')"

text \<open>
  \<^verbatim>\<open>assert len(func['filenames']) <= 1\<close> followed by \<^verbatim>\<open>filename = func['filenames'][0]\<close>,
  the first two lines of the loop body in every variant.
\<close>

definition first_filename :: "func \<Rightarrow> py_error + string" where
  "first_filename fn =
     (if \<not> length (filenames fn) \<le> 1 then Inl AssertionError
      else case filenames fn of [] \<Rightarrow> Inl IndexError | filename # _ \<Rightarrow> Inr filename)"

section \<open>\<^verbatim>\<open>llm_4_base_cov/main.py\<close>: \<^verbatim>\<open>collect_result\<close>\<close>

type_synonym store = "(string \<times> int) list"

text \<open>Lines 91 to 95: the key, then the flag is set or kept.\<close>

definition base4_region :: "string \<Rightarrow> region \<Rightarrow> store \<Rightarrow> store" where
  "base4_region filename r m =
     (let k = region_key filename r
      in if count r > 0 then AList.update k 1 m else AList.update k (dict_get m k 0) m)"

text \<open>Lines 84 to 95: the loop over the regions, left at the first region beyond the limit.\<close>

fun base4_regions :: "string \<Rightarrow> int \<Rightarrow> region list \<Rightarrow> store \<Rightarrow> store" where
  "base4_regions filename limit [] m = m"
| "base4_regions filename limit (r # rs) m =
     (if led r > limit then m
      else base4_regions filename limit rs (base4_region filename r m))"

text \<open>Lines 75 to 95: the body of the loop over the function records.\<close>

definition base4_func :: "env \<Rightarrow> func \<Rightarrow> cache \<times> store \<Rightarrow> py_error + (cache \<times> store)" where
  "base4_func e fn st =
     (case first_filename fn of
        Inl err \<Rightarrow> Inl err
      | Inr filename \<Rightarrow>
          if str_in (cwd e) filename then
            (case cached_limit (Inr \<circ> base4_parse_file) e (fst st) filename of
               Inl err \<Rightarrow> Inl err
             | Inr (mp, limit) \<Rightarrow> Inr (mp, base4_regions filename limit (regions fn) (snd st)))
          else Inr st)"

text \<open>
  The snapshot files. A path either holds a complete dump of a store, or it has been
  opened for writing and holds nothing yet.
\<close>

datatype json_file = Truncated | Dumped store

type_synonym json_files = "string \<rightharpoonup> json_file"

text \<open>Lines 70 to 73: the store starts empty, or from \<^verbatim>\<open>cov_map.json\<close> when it exists.\<close>

definition base4_load :: "json_files \<Rightarrow> py_error + store" where
  "base4_load fs =
     (case fs ''cov_map.json'' of
        None \<Rightarrow> Inr []
      | Some Truncated \<Rightarrow> Inl JSONDecodeError
      | Some (Dumped m) \<Rightarrow> Inr m)"

text \<open>
  Lines 96 and 97, \<^verbatim>\<open>with open('cov_map.json', 'w') as fp: json.dump(mamp_reg, fp)\<close>:
  the states of the snapshot files after the \<^verbatim>\<open>open\<close>, which truncates the file at
  that path, and after the dump has been written and the file closed.
\<close>

definition persist :: "store \<Rightarrow> json_files \<Rightarrow> json_files list" where
  "persist m fs = [fs(''cov_map.json'' \<mapsto> Truncated), fs(''cov_map.json'' \<mapsto> Dumped m)]"

text \<open>Lines 98 to 102: the two numbers printed.\<close>

definition base4_reg_total :: "store \<Rightarrow> int" where
  "base4_reg_total m = int (length m)"

definition base4_reg_count :: "store \<Rightarrow> int" where
  "base4_reg_count m = int (length (filter (\<lambda>(k, v). v \<noteq> 0) m))"

text \<open>
  \<^verbatim>\<open>collect_result\<close> from line 63 on, for an export that was produced and parsed: the
  result is the final state of the snapshot files and the pair
  \<^verbatim>\<open>(reg_count, reg_total)\<close>.
\<close>

definition base4_collect_result ::
  "env \<Rightarrow> json_files \<Rightarrow> func list \<Rightarrow> py_error + (json_files \<times> int \<times> int)" where
  "base4_collect_result e fs fns =
     (case base4_load fs of
        Inl err \<Rightarrow> Inl err
      | Inr m0 \<Rightarrow>
          (case funcs_loop (base4_func e) fns (Map.empty, m0) of
             Inl err \<Rightarrow> Inl err
           | Inr (mp, m) \<Rightarrow> Inr (last (persist m fs), base4_reg_count m, base4_reg_total m)))"

section \<open>\<^verbatim>\<open>rug-gpt/cov_collect.py\<close>: \<^verbatim>\<open>collect_result\<close>\<close>

record counters =
  reg_total :: int
  reg_count :: int
  line_total :: int
  line_count :: int
  func_total :: int
  func_count :: int

text \<open>
  Lines 97 to 113. The state of the loop is the dictionary, the counters and the two
  flags \<^verbatim>\<open>is_valid_func\<close> and \<^verbatim>\<open>has_hit\<close>; a key already in the dictionary is skipped.
\<close>

fun rug_regions ::
  "string \<Rightarrow> int \<Rightarrow> region list \<Rightarrow> store \<times> counters \<times> bool \<times> bool \<Rightarrow> store \<times> counters \<times> bool \<times> bool" where
  "rug_regions filename limit [] s = s"
| "rug_regions filename limit (r # rs) (m, c, is_valid_func, has_hit) =
     (if led r > limit then (m, c, False, has_hit)
      else
        let k = region_key filename r
        in if map_of m k \<noteq> None then rug_regions filename limit rs (m, c, is_valid_func, has_hit)
           else
             let m' = AList.update k 1 m;
                 c' = c\<lparr>reg_total := reg_total c + 1,
                        line_total := line_total c + (led r - lst r + 1)\<rparr>
             in if count r > 0 then
                  rug_regions filename limit rs
                    (m', c'\<lparr>reg_count := reg_count c' + 1,
                            line_count := line_count c' + (led r - lst r + 1)\<rparr>,
                     is_valid_func, True)
                else rug_regions filename limit rs (m', c', is_valid_func, has_hit))"

text \<open>Lines 88 to 117: the body of the loop over the function records.\<close>

definition rug_func ::
  "env \<Rightarrow> func \<Rightarrow> cache \<times> store \<times> counters \<Rightarrow> py_error + (cache \<times> store \<times> counters)" where
  "rug_func e fn st =
     (case first_filename fn of
        Inl err \<Rightarrow> Inl err
      | Inr filename \<Rightarrow>
          (case st of (mp0, m0, c0) \<Rightarrow>
             if str_in (cwd e) filename then
               (case cached_limit (Inr \<circ> rug_parse_file) e mp0 filename of
                  Inl err \<Rightarrow> Inl err
                | Inr (mp, limit) \<Rightarrow>
                    (case rug_regions filename limit (regions fn) (m0, c0, True, False) of
                       (m, c, is_valid_func, has_hit) \<Rightarrow>
                         Inr (mp, m,
                              if is_valid_func then
                                (if has_hit
                                 then c\<lparr>func_total := func_total c + 1, func_count := func_count c + 1\<rparr>
                                 else c\<lparr>func_total := func_total c + 1\<rparr>)
                              else c)))
             else Inr st))"

definition zero_counters :: counters where
  "zero_counters = \<lparr>reg_total = 0, reg_count = 0, line_total = 0, line_count = 0,
                     func_total = 0, func_count = 0\<rparr>"

text \<open>\<^verbatim>\<open>collect_result\<close> from line 79 on: the dictionary and the counters after the loop.\<close>

definition rug_collect_result :: "env \<Rightarrow> func list \<Rightarrow> py_error + (store \<times> counters)" where
  "rug_collect_result e fns =
     (case funcs_loop (rug_func e) fns (Map.empty, [], zero_counters) of
        Inl err \<Rightarrow> Inl err
      | Inr (mp, m, c) \<Rightarrow> Inr (m, c))"

section \<open>\<^verbatim>\<open>rusty-unit-18/t.py\<close>: \<^verbatim>\<open>collect_result\<close>\<close>

text \<open>Lines 70 to 73: the entry of a key is the largest count seen for it.\<close>

definition ru18_region :: "string \<Rightarrow> region \<Rightarrow> store \<Rightarrow> store" where
  "ru18_region filename r m =
     (let k = region_key filename r;
          m' = (if map_of m k = None then AList.update k 0 m else m)
      in AList.update k (max (count r) (dict_get m' k 0)) m')"

fun ru18_regions :: "string \<Rightarrow> int \<Rightarrow> region list \<Rightarrow> store \<Rightarrow> store" where
  "ru18_regions filename limit [] m = m"
| "ru18_regions filename limit (r # rs) m =
     (if led r > limit then m
      else ru18_regions filename limit rs (ru18_region filename r m))"

text \<open>Lines 58 to 73: the body of the loop over the function records.\<close>

definition ru18_func :: "env \<Rightarrow> func \<Rightarrow> cache \<times> store \<Rightarrow> py_error + (cache \<times> store)" where
  "ru18_func e fn st =
     (case first_filename fn of
        Inl err \<Rightarrow> Inl err
      | Inr filename \<Rightarrow>
          if str_in (cwd e) filename \<and> \<not> suffix ''rusty_monitor.rs'' filename then
            (case cached_limit ru18_parse_file e (fst st) filename of
               Inl err \<Rightarrow> Inl err
             | Inr (mp, limit) \<Rightarrow> Inr (mp, ru18_regions filename limit (regions fn) (snd st)))
          else Inr st)"

definition ru18_reg_total :: "store \<Rightarrow> int" where
  "ru18_reg_total m = int (length m)"

definition ru18_reg_count :: "store \<Rightarrow> int" where
  "ru18_reg_count m = int (length (filter (\<lambda>(k, v). v > 0) m))"

text \<open>
  \<^verbatim>\<open>collect_result\<close> from line 49 on: the dictionary starts empty, the counts are
  taken, and the dictionary is written to \<^verbatim>\<open>cov_map.json\<close> as in the variant above.
\<close>

definition ru18_collect_result ::
  "env \<Rightarrow> json_files \<Rightarrow> func list \<Rightarrow> py_error + (json_files \<times> int \<times> int)" where
  "ru18_collect_result e fs fns =
     (case funcs_loop (ru18_func e) fns (Map.empty, []) of
        Inl err \<Rightarrow> Inl err
      | Inr (mp, m) \<Rightarrow> Inr (last (persist m fs), ru18_reg_count m, ru18_reg_total m))"

section \<open>\<^verbatim>\<open>rulf/collect_cov.py\<close>: \<^verbatim>\<open>cov_select\<close>\<close>

text \<open>
  The entry of a key is the list \<^verbatim>\<open>[led - lst + 1, count]\<close>, here a pair: the number
  of lines of the region and the sum of the counts added so far.
\<close>

type_synonym cstore = "(string \<times> int \<times> int) list"

text \<open>Lines 57 to 61.\<close>

definition rulf_region :: "string \<Rightarrow> region \<Rightarrow> cstore \<Rightarrow> cstore" where
  "rulf_region filename r m =
     (let k = region_key filename r
      in case map_of m k of
           Some (ln, c) \<Rightarrow> AList.update k (ln, c + count r) m
         | None \<Rightarrow> AList.update k (led r - lst r + 1, count r) m)"

text \<open>Lines 51 to 61: a region beyond the limit is passed over and the loop goes on.\<close>

fun rulf_regions :: "string \<Rightarrow> int \<Rightarrow> region list \<Rightarrow> cstore \<Rightarrow> cstore" where
  "rulf_regions filename limit [] m = m"
| "rulf_regions filename limit (r # rs) m =
     (if led r > limit then rulf_regions filename limit rs m
      else rulf_regions filename limit rs (rulf_region filename r m))"

text \<open>Lines 42 to 61: the body of the loop over the function records.\<close>

definition rulf_func :: "env \<Rightarrow> func \<Rightarrow> cache \<times> cstore \<Rightarrow> py_error + (cache \<times> cstore)" where
  "rulf_func e fn st =
     (case first_filename fn of
        Inl err \<Rightarrow> Inl err
      | Inr filename \<Rightarrow>
          if str_in (cwd e) filename \<and> str_in ''src/'' filename then
            (case cached_limit (Inr \<circ> rulf_parse_file) e (fst st) filename of
               Inl err \<Rightarrow> Inl err
             | Inr (mp, limit) \<Rightarrow> Inr (mp, rulf_regions filename limit (regions fn) (snd st)))
          else Inr st)"

text \<open>
  Lines 22 to 61: the loop over the fuzz targets, each with the export that
  \<^verbatim>\<open>llvm-cov\<close> produced for it; \<^verbatim>\<open>map\<close> and \<^verbatim>\<open>mamp_reg\<close> live across the targets.
\<close>

fun rulf_targets :: "env \<Rightarrow> func list list \<Rightarrow> cache \<times> cstore \<Rightarrow> py_error + (cache \<times> cstore)" where
  "rulf_targets e [] st = Inr st"
| "rulf_targets e (fns # rest) st =
     (case funcs_loop (rulf_func e) fns st of
        Inl err \<Rightarrow> Inl err
      | Inr st' \<Rightarrow> rulf_targets e rest st')"

text \<open>Lines 62 to 70: the totals taken from the dictionary.\<close>

definition rulf_reg_total :: "cstore \<Rightarrow> int" where
  "rulf_reg_total m = int (length m)"

definition rulf_reg_count :: "cstore \<Rightarrow> int" where
  "rulf_reg_count m = int (length (filter (\<lambda>(k, ln, c). c > 0) m))"

definition rulf_line_total :: "cstore \<Rightarrow> int" where
  "rulf_line_total m = sum_list (map (\<lambda>(k, ln, c). ln) m)"

definition rulf_line_count :: "cstore \<Rightarrow> int" where
  "rulf_line_count m = sum_list (map (\<lambda>(k, ln, c). ln) (filter (\<lambda>(k, ln, c). c > 0) m))"

text \<open>\<^verbatim>\<open>cov_select\<close>: the dictionary after all targets and the pair printed.\<close>

definition cov_select :: "env \<Rightarrow> func list list \<Rightarrow> py_error + (cstore \<times> int \<times> int)" where
  "cov_select e exports =
     (case rulf_targets e exports (Map.empty, []) of
        Inl err \<Rightarrow> Inl err
      | Inr (mp, m) \<Rightarrow> Inr (m, rulf_reg_count m, rulf_reg_total m))"

section \<open>The regions a run reaches\<close>

text \<open>
  For stating what the loops do as a whole: the regions that get as far as the
  dictionary update, each with its file name, in the order of the loops. A function
  record contributes when its file name passes the test on the path; then the loop
  that breaks contributes the regions before the first one beyond the limit, and the
  loop that continues contributes every region not beyond the limit.
\<close>

definition until_beyond :: "int \<Rightarrow> region list \<Rightarrow> region list" where
  "until_beyond limit rs = takeWhile (\<lambda>r. \<not> led r > limit) rs"

definition not_beyond :: "int \<Rightarrow> region list \<Rightarrow> region list" where
  "not_beyond limit rs = filter (\<lambda>r. \<not> led r > limit) rs"

definition reached_fn ::
  "(string \<Rightarrow> bool) \<Rightarrow> (string list \<Rightarrow> py_error + int) \<Rightarrow> (int \<Rightarrow> region list \<Rightarrow> region list) \<Rightarrow>
   env \<Rightarrow> func \<Rightarrow> (string \<times> region) list" where
  "reached_fn acc pf sel e fn =
     (case filenames fn of
        [] \<Rightarrow> []
      | f # fs \<Rightarrow>
          if fs = [] \<and> acc f then
            (case files e f of
               None \<Rightarrow> []
             | Some ls \<Rightarrow>
                 (case pf ls of
                    Inl err \<Rightarrow> []
                  | Inr limit \<Rightarrow> map (Pair f) (sel limit (regions fn))))
          else [])"

definition reached ::
  "(string \<Rightarrow> bool) \<Rightarrow> (string list \<Rightarrow> py_error + int) \<Rightarrow> (int \<Rightarrow> region list \<Rightarrow> region list) \<Rightarrow>
   env \<Rightarrow> func list \<Rightarrow> (string \<times> region) list" where
  "reached acc pf sel e fns = concat (map (reached_fn acc pf sel e) fns)"

definition base4_reached :: "env \<Rightarrow> func list \<Rightarrow> (string \<times> region) list" where
  "base4_reached e fns = reached (str_in (cwd e)) (Inr \<circ> base4_parse_file) until_beyond e fns"

definition rug_reached :: "env \<Rightarrow> func list \<Rightarrow> (string \<times> region) list" where
  "rug_reached e fns = reached (str_in (cwd e)) (Inr \<circ> rug_parse_file) until_beyond e fns"

definition ru18_reached :: "env \<Rightarrow> func list \<Rightarrow> (string \<times> region) list" where
  "ru18_reached e fns =
     reached (\<lambda>f. str_in (cwd e) f \<and> \<not> suffix ''rusty_monitor.rs'' f) ru18_parse_file until_beyond e fns"

definition rulf_reached :: "env \<Rightarrow> func list \<Rightarrow> (string \<times> region) list" where
  "rulf_reached e fns =
     reached (\<lambda>f. str_in (cwd e) f \<and> str_in ''src/'' f) (Inr \<circ> rulf_parse_file) not_beyond e fns"

text \<open>The dictionary part of one step of \<^const>\<open>rug_regions\<close>.\<close>

definition rug_store :: "string \<Rightarrow> region \<Rightarrow> store \<Rightarrow> store" where
  "rug_store filename r m =
     (let k = region_key filename r in if map_of m k \<noteq> None then m else AList.update k 1 m)"

text \<open>The cache holds, for a file name, what \<^verbatim>\<open>parse_file\<close> returns for that file.\<close>

definition cache_ok :: "(string list \<Rightarrow> py_error + int) \<Rightarrow> env \<Rightarrow> cache \<Rightarrow> bool" where
  "cache_ok pf e mp = (\<forall>f v. mp f = Some v \<longrightarrow> (\<exists>ls. files e f = Some ls \<and> pf ls = Inr v))"




text \<open>
  Two entries of the dictionary of \<^verbatim>\<open>cov_select\<close> with the same key and number of
  lines, the second with a count that is no smaller and positive exactly when the
  first is.
\<close>

definition same_cover :: "string \<times> int \<times> int \<Rightarrow> string \<times> int \<times> int \<Rightarrow> bool" where
  "same_cover a b =
     (fst a = fst b \<and> fst (snd a) = fst (snd b) \<and> snd (snd a) \<le> snd (snd b) \<and>
      (snd (snd a) > 0) = (snd (snd b) > 0))"

section \<open>Example inputs\<close>

text \<open>A file of ten lines whose test section starts at line 7, and a file without one.\<close>

definition ten_lines :: "string list" where
  "ten_lines = [''fn a() {'', ''  b();'', ''  c();'', ''  d();'', ''}'', '''',
                ''#[cfg(test)]'', ''mod tests {'', ''  e();'', ''}'']"

definition three_lines :: "string list" where
  "three_lines = [''fn a() {'', ''  b();'', ''}'']"

text \<open>
  A project in \<^verbatim>\<open>/w\<close> with one source file of its own, a file of another project
  whose path contains \<^verbatim>\<open>/w\<close> without starting with it, and no file elsewhere.
\<close>

definition ex_env :: env where
  "ex_env = \<lparr>cwd = ''/w'',
             files = [''/w/src/a.rs'' \<mapsto> ten_lines, ''/x/w/src/a.rs'' \<mapsto> three_lines]\<rparr>"

text \<open>
  A function of the project's file with a region on lines 2 to 5, executed three
  times, and a region on lines 8 to 9, in the test section.
\<close>

definition ex_func :: func where
  "ex_func = \<lparr>filenames = [''/w/src/a.rs''],
              regions = [\<lparr>lst = 2, col_st = 1, led = 5, col_ed = 2, count = 3\<rparr>,
                         \<lparr>lst = 8, col_st = 1, led = 9, col_ed = 2, count = 1\<rparr>]\<rparr>"

text \<open>A function of the other project's file, and one of a library file.\<close>

definition dep_func :: func where
  "dep_func = \<lparr>filenames = [''/x/w/src/a.rs''],
               regions = [\<lparr>lst = 1, col_st = 1, led = 2, col_ed = 2, count = 1\<rparr>]\<rparr>"

definition lib_func :: func where
  "lib_func = \<lparr>filenames = [''/usr/lib/b.rs''],
               regions = [\<lparr>lst = 1, col_st = 1, led = 2, col_ed = 2, count = 1\<rparr>]\<rparr>"

text \<open>A record without a file name.\<close>

definition nofile_func :: func where
  "nofile_func = \<lparr>filenames = [],
                  regions = [\<lparr>lst = 1, col_st = 1, led = 2, col_ed = 2, count = 1\<rparr>]\<rparr>"

text \<open>The same region reported twice, first never executed and then executed five times.\<close>

definition zero_func :: func where
  "zero_func = \<lparr>filenames = [''/w/src/a.rs''],
                regions = [\<lparr>lst = 2, col_st = 1, led = 5, col_ed = 2, count = 0\<rparr>]\<rparr>"

definition five_func :: func where
  "five_func = \<lparr>filenames = [''/w/src/a.rs''],
                regions = [\<lparr>lst = 2, col_st = 1, led = 5, col_ed = 2, count = 5\<rparr>]\<rparr>"

text \<open>A snapshot written by an earlier run, with one key that was executed.\<close>

definition ex_snapshot :: json_files where
  "ex_snapshot = [''cov_map.json'' \<mapsto> Dumped [(''/w/src/a.rs/1/1/1/9'', 1)]]"

section \<open>Properties of \<^verbatim>\<open>parse_file\<close>\<close>

lemma str_in_iff: "str_in p l \<longleftrightarrow> (\<exists>a b. l = a @ p @ b)"
proof (induction l)
  case Nil
  then show ?case by auto
next
  case (Cons c cs)
  show ?case
  proof
    assume "str_in p (c # cs)"
    then consider "prefix p (c # cs)" | "str_in p cs" by auto
    then show "\<exists>a b. c # cs = a @ p @ b"
    proof cases
      case 1
      then obtain b where "c # cs = p @ b" by (auto simp: prefix_def)
      then have "c # cs = [] @ p @ b" by simp
      then show ?thesis by blast
    next
      case 2
      with Cons obtain a b where "cs = a @ p @ b" by blast
      then have "c # cs = (c # a) @ p @ b" by simp
      then show ?thesis by blast
    qed
  next
    assume "\<exists>a b. c # cs = a @ p @ b"
    then obtain a b where ab: "c # cs = a @ p @ b" by blast
    show "str_in p (c # cs)"
    proof (cases a)
      case Nil
      with ab have "prefix p (c # cs)" by (simp add: prefix_def)
      then show ?thesis by simp
    next
      case (Cons x a')
      with ab have "cs = a' @ p @ b" by simp
      with Cons.IH have "str_in p cs" by blast
      then show ?thesis by simp
    qed
  qed
qed

lemma scan_lines_no_marker:
  "\<forall>l \<in> set ls. \<not> mk l \<Longrightarrow> scan_lines mk ls ans = ans + int (length ls)"
  by (induction ls arbitrary: ans) auto

lemma scan_lines_first_marker:
  "\<lbrakk>i < length ls; mk (ls ! i); \<forall>j<i. \<not> mk (ls ! j)\<rbrakk> \<Longrightarrow> scan_lines mk ls ans = ans + int i"
proof (induction ls arbitrary: ans i)
  case Nil
  then show ?case by simp
next
  case (Cons l ls)
  show ?case
  proof (cases i)
    case 0
    with Cons.prems show ?thesis by simp
  next
    case (Suc i')
    from Cons.prems Suc have nl: "\<not> mk l" by auto
    from Cons.prems Suc have "i' < length ls" "mk (ls ! i')" "\<forall>j<i'. \<not> mk (ls ! j)"
      by auto
    then have "scan_lines mk ls (ans + 1) = ans + 1 + int i'" by (rule Cons.IH)
    with nl Suc show ?thesis by simp
  qed
qed

text \<open>
  C1 (as the code has it). Lines are numbered from 1. When the first marker line is
  line \<open>M\<close> (the list position \<open>M - 1\<close>), \<^verbatim>\<open>parse_file\<close> returns \<open>M\<close>, the marker's own
  line number, which is one more than the number of lines before the marker; for a
  file of \<open>N\<close> lines without a marker it returns \<open>N + 1\<close>. Both the single-marker variant
  of \<^verbatim>\<open>rulf/collect_cov.py\<close> and the two-marker variant of \<^verbatim>\<open>llm_4_base_cov/main.py\<close>
  behave so.
\<close>

theorem parse_file_boundary:
  "(M \<ge> 1 \<and> M \<le> length ls \<and> rulf_marker (ls ! (M - 1)) \<and> (\<forall>j < M - 1. \<not> rulf_marker (ls ! j))
      \<longrightarrow> rulf_parse_file ls = int M) \<and>
   ((\<forall>l \<in> set ls. \<not> rulf_marker l) \<longrightarrow> rulf_parse_file ls = int (length ls) + 1) \<and>
   (M \<ge> 1 \<and> M \<le> length ls \<and> base4_marker (ls ! (M - 1)) \<and> (\<forall>j < M - 1. \<not> base4_marker (ls ! j))
      \<longrightarrow> base4_parse_file ls = int M) \<and>
   ((\<forall>l \<in> set ls. \<not> base4_marker l) \<longrightarrow> base4_parse_file ls = int (length ls) + 1)"
proof -
  have first: "scan_lines mk ls 1 = int M"
    if "M \<ge> 1" "M \<le> length ls" "mk (ls ! (M - 1))" "\<forall>j < M - 1. \<not> mk (ls ! j)" for mk
  proof -
    from that have "M - 1 < length ls" by arith
    with that have "scan_lines mk ls 1 = 1 + int (M - 1)"
      by (intro scan_lines_first_marker) auto
    with that show ?thesis by simp
  qed
  have none: "scan_lines mk ls 1 = int (length ls) + 1" if "\<forall>l \<in> set ls. \<not> mk l" for mk
    using scan_lines_no_marker [OF that, of 1] by simp
  show ?thesis
    unfolding rulf_parse_file_def base4_parse_file_def
    using first [of rulf_marker] first [of base4_marker] none [of rulf_marker] none [of base4_marker]
    by blast
qed

theorem parse_file_boundary_witness:
  "rulf_marker (ten_lines ! 6) \<and> rulf_parse_file ten_lines = 7 \<and> base4_parse_file ten_lines = 7 \<and>
   rulf_parse_file three_lines = 4 \<and> base4_parse_file three_lines = 4"
proof -
  have a: "\<forall>j<(7::nat) - 1. \<not> rulf_marker (ten_lines ! j) \<and> \<not> base4_marker (ten_lines ! j)"
    by (simp add: eval_nat_numeral All_less_Suc ten_lines_def rulf_marker_def base4_marker_def)
  have b: "rulf_marker (ten_lines ! (7 - 1)) \<and> base4_marker (ten_lines ! (7 - 1)) \<and> 7 \<le> length ten_lines"
    by (simp add: ten_lines_def rulf_marker_def base4_marker_def)
  have c: "\<forall>l \<in> set three_lines. \<not> rulf_marker l \<and> \<not> base4_marker l"
    by (simp add: three_lines_def rulf_marker_def base4_marker_def)
  have d: "length three_lines = 3" by (simp add: three_lines_def)
  show ?thesis
    using parse_file_boundary [of 7 ten_lines] parse_file_boundary [of 1 three_lines] a b c d
    by simp
qed

text \<open>
  C1 as the specification words it fails: with the first marker on line 7 of ten lines
  the result is not \<open>7 - 1\<close>, and for three lines without a marker it is not 3.
\<close>

theorem parse_file_boundary_counterexample:
  "rulf_marker (ten_lines ! 6) \<and> rulf_parse_file ten_lines \<noteq> 7 - 1 \<and>
   base4_marker (ten_lines ! 6) \<and> base4_parse_file ten_lines \<noteq> 7 - 1 \<and>
   length three_lines = 3 \<and> rulf_parse_file three_lines \<noteq> 3 \<and> base4_parse_file three_lines \<noteq> 3"
  by (simp add: ten_lines_def three_lines_def rulf_parse_file_def base4_parse_file_def
      rulf_marker_def base4_marker_def)

section \<open>The dictionary key\<close>

text \<open>
  The decimal text of an integer has no \<^verbatim>\<open>/\<close>, so the four numbers of a key can be
  read back from its end, and the file name is what is left.
\<close>

lemma digit_cases: "d < 10 \<Longrightarrow> d \<in> {0, 1, 2, 3, 4, 5, 6, 7, 8, 9::nat}"
  by auto

lemma digit_char_not_sep: "d < 10 \<Longrightarrow> digit_char d \<noteq> CHR ''/'' \<and> digit_char d \<noteq> CHR ''-''"
  using digit_cases [of d] by (auto simp: digit_char_def)

lemma digit_char_inj: "\<lbrakk>d < 10; d' < 10; digit_char d = digit_char d'\<rbrakk> \<Longrightarrow> d = d'"
  using digit_cases [of d] digit_cases [of d'] by (auto simp: digit_char_def)

lemma str_nat_chars: "CHR ''/'' \<notin> set (str_nat n) \<and> CHR ''-'' \<notin> set (str_nat n) \<and> str_nat n \<noteq> []"
proof (induction n rule: str_nat.induct)
  case (1 n)
  show ?case
  proof (cases "n < 10")
    case True
    then show ?thesis using digit_char_not_sep [of n] by (auto simp add: str_nat.simps [of n])
  next
    case False
    then show ?thesis using 1 digit_char_not_sep [of "n mod 10"]
      by (auto simp add: str_nat.simps [of n])
  qed
qed

lemma str_nat_inj: "str_nat n = str_nat m \<Longrightarrow> n = m"
proof (induction n arbitrary: m rule: str_nat.induct)
  case (1 n)
  show ?case
  proof (cases "n < 10")
    case n: True
    show ?thesis
    proof (cases "m < 10")
      case True
      with n "1.prems" show ?thesis
        by (simp add: str_nat.simps [of n] str_nat.simps [of m] digit_char_inj)
    next
      case False
      with n "1.prems" str_nat_chars [of "m div 10"] show ?thesis
        by (simp add: str_nat.simps [of n] str_nat.simps [of m])
    qed
  next
    case n: False
    show ?thesis
    proof (cases "m < 10")
      case True
      with n "1.prems" str_nat_chars [of "n div 10"] show ?thesis
        by (simp add: str_nat.simps [of n] str_nat.simps [of m])
    next
      case False
      with n "1.prems" have e: "str_nat (n div 10) = str_nat (m div 10)"
        and d: "digit_char (n mod 10) = digit_char (m mod 10)"
        by (simp_all add: str_nat.simps [of n] str_nat.simps [of m])
      from "1.IH" [OF n e] have "n div 10 = m div 10" .
      moreover from d have "n mod 10 = m mod 10" by (intro digit_char_inj) auto
      ultimately show ?thesis by (metis div_mult_mod_eq)
    qed
  qed
qed

lemma py_str_no_slash: "CHR ''/'' \<notin> set (py_str i)"
  using str_nat_chars by (simp add: py_str_def)

lemma py_str_inj: "py_str i = py_str j \<Longrightarrow> i = j"
proof -
  assume a: "py_str i = py_str j"
  have hd_pos: "hd (str_nat n) \<noteq> CHR ''-''" for n
    using str_nat_chars [of n] by (cases "str_nat n") auto
  show ?thesis
  proof (cases "i < 0")
    case i: True
    show ?thesis
    proof (cases "j < 0")
      case True
      with i a have "str_nat (nat (- i)) = str_nat (nat (- j))" by (simp add: py_str_def)
      then have "nat (- i) = nat (- j)" by (rule str_nat_inj)
      with i True show ?thesis by simp
    next
      case False
      with i a have "CHR ''-'' # str_nat (nat (- i)) = str_nat (nat j)" by (simp add: py_str_def)
      with hd_pos [of "nat j"] show ?thesis by (metis list.sel(1))
    qed
  next
    case i: False
    show ?thesis
    proof (cases "j < 0")
      case True
      with i a have "str_nat (nat i) = CHR ''-'' # str_nat (nat (- j))" by (simp add: py_str_def)
      with hd_pos [of "nat i"] show ?thesis by (metis list.sel(1))
    next
      case False
      with i a have "str_nat (nat i) = str_nat (nat j)" by (simp add: py_str_def)
      then have "nat i = nat j" by (rule str_nat_inj)
      with i False show ?thesis by simp
    qed
  qed
qed

lemma split_last_sep:
  assumes "a @ s # x = b @ s # y" "s \<notin> set x" "s \<notin> set y"
  shows "a = b \<and> x = y"
proof -
  from assms(1) have "rev x @ s # rev a = rev y @ s # rev b"
    by (metis rev.simps(2) rev_append append_assoc append_Cons append_Nil)
  then have "takeWhile (\<lambda>c. c \<noteq> s) (rev x @ s # rev a) = takeWhile (\<lambda>c. c \<noteq> s) (rev y @ s # rev b)"
    by simp
  moreover have "takeWhile (\<lambda>c. c \<noteq> s) (rev x @ s # rev a) = rev x"
    using assms(2) by (auto simp add: takeWhile_tail)
  moreover have "takeWhile (\<lambda>c. c \<noteq> s) (rev y @ s # rev b) = rev y"
    using assms(3) by (auto simp add: takeWhile_tail)
  ultimately have "x = y" by simp
  with assms(1) show ?thesis by simp
qed

lemma region_key_inj:
  assumes "region_key f r = region_key f' r'"
  shows "f = f' \<and> lst r = lst r' \<and> col_st r = col_st r' \<and> led r = led r' \<and> col_ed r = col_ed r'"
proof -
  let ?s = "CHR ''/''"
  from assms have e4:
    "(f @ ?s # py_str (lst r) @ ?s # py_str (col_st r) @ ?s # py_str (led r)) @ ?s # py_str (col_ed r)
   = (f' @ ?s # py_str (lst r') @ ?s # py_str (col_st r') @ ?s # py_str (led r')) @ ?s # py_str (col_ed r')"
    by (simp add: region_key_def)
  from split_last_sep [OF e4 py_str_no_slash py_str_no_slash]
  have e3: "(f @ ?s # py_str (lst r) @ ?s # py_str (col_st r)) @ ?s # py_str (led r)
          = (f' @ ?s # py_str (lst r') @ ?s # py_str (col_st r')) @ ?s # py_str (led r')"
    and d4: "py_str (col_ed r) = py_str (col_ed r')" by simp_all
  from split_last_sep [OF e3 py_str_no_slash py_str_no_slash]
  have e2: "(f @ ?s # py_str (lst r)) @ ?s # py_str (col_st r)
          = (f' @ ?s # py_str (lst r')) @ ?s # py_str (col_st r')"
    and d3: "py_str (led r) = py_str (led r')" by simp_all
  from split_last_sep [OF e2 py_str_no_slash py_str_no_slash]
  have e1: "f @ ?s # py_str (lst r) = f' @ ?s # py_str (lst r')"
    and d2: "py_str (col_st r) = py_str (col_st r')" by simp_all
  from split_last_sep [OF e1 py_str_no_slash py_str_no_slash]
  have "f = f'" and d1: "py_str (lst r) = py_str (lst r')" by simp_all
  with d2 d3 d4 show ?thesis by (auto dest: py_str_inj)
qed

text \<open>
  C10 (as the code has it). The key is a function of the file name and the four
  coordinates alone, and it is injective in them: two regions get the same key exactly
  when they have the same file name, start line, start column, end line and end column.
  The execution count and the export's further positions are not part of the key.
\<close>

theorem region_key_injective:
  "region_key f r = region_key f' r' \<longleftrightarrow>
     f = f' \<and> lst r = lst r' \<and> col_st r = col_st r' \<and> led r = led r' \<and> col_ed r = col_ed r'"
proof
  assume "region_key f r = region_key f' r'"
  then show "f = f' \<and> lst r = lst r' \<and> col_st r = col_st r' \<and> led r = led r' \<and> col_ed r = col_ed r'"
    by (rule region_key_inj)
next
  assume "f = f' \<and> lst r = lst r' \<and> col_st r = col_st r' \<and> led r = led r' \<and> col_ed r = col_ed r'"
  then show "region_key f r = region_key f' r'"
    by (simp add: region_key_def)
qed

text \<open>
  C10 as the specification words it fails: no two distinct tuples of file name and
  coordinates produce the same key.
\<close>

theorem region_key_collision_counterexample:
  "\<not> (\<exists>f r f' r'.
        (f, lst r, col_st r, led r, col_ed r) \<noteq> (f', lst r', col_st r', led r', col_ed r') \<and>
        region_key f r = region_key f' r')"
  using region_key_inj by fast

section \<open>The loops as folds over the regions they reach\<close>

text \<open>
  Each loop over the function records is a fold of its dictionary update over the
  list of the regions it reaches; the cache of limits stays in step with the files.
\<close>

lemma cache_ok_empty: "cache_ok pf e Map.empty"
  by (simp add: cache_ok_def)

lemma cached_limit_ok:
  assumes "cache_ok pf e mp" "cached_limit pf e mp f = Inr (mp', limit)"
  shows "cache_ok pf e mp' \<and> (\<exists>ls. files e f = Some ls \<and> pf ls = Inr limit)"
  using assms
  unfolding cached_limit_def cache_ok_def
  by (auto split: option.splits sum.splits if_splits)

lemma first_filename_Inr: "first_filename fn = Inr f \<longleftrightarrow> filenames fn = [f]"
  by (cases "filenames fn") (auto simp: first_filename_def split: list.splits)

lemma base4_regions_fold:
  "base4_regions f limit rs m = fold (base4_region f) (until_beyond limit rs) m"
  by (induction rs arbitrary: m) (auto simp: until_beyond_def)

lemma ru18_regions_fold:
  "ru18_regions f limit rs m = fold (ru18_region f) (until_beyond limit rs) m"
  by (induction rs arbitrary: m) (auto simp: until_beyond_def)

lemma rulf_regions_fold:
  "rulf_regions f limit rs m = fold (rulf_region f) (not_beyond limit rs) m"
  by (induction rs arbitrary: m) (auto simp: not_beyond_def)

lemma rug_regions_fold:
  "fst (rug_regions f limit rs (m, c, v, h)) = fold (rug_store f) (until_beyond limit rs) m"
  by (induction rs arbitrary: m c v h) (auto simp: until_beyond_def rug_store_def Let_def)

lemma fold_map_Pair: "fold (\<lambda>(f, r). step f r) (map (Pair f) rs) m = fold (step f) rs m"
  by (induction rs arbitrary: m) auto

lemma base4_func_fold:
  assumes "cache_ok (Inr \<circ> base4_parse_file) e mp" "base4_func e fn (mp, s) = Inr (mp', s')"
  shows "cache_ok (Inr \<circ> base4_parse_file) e mp' \<and>
         s' = fold (\<lambda>(f, r). base4_region f r)
                (reached_fn (str_in (cwd e)) (Inr \<circ> base4_parse_file) until_beyond e fn) (s)"
proof -
  from assms(2) obtain f where f: "first_filename fn = Inr f"
    by (auto simp: base4_func_def split: sum.splits)
  then have fs: "filenames fn = [f]" by (simp add: first_filename_Inr)
  show ?thesis
  proof (cases "(str_in (cwd e)) f")
    case False
    with assms f fs show ?thesis by (auto simp: base4_func_def reached_fn_def)
  next
    case True
    with assms(2) f obtain limit where
      cl: "cached_limit (Inr \<circ> base4_parse_file) e mp f = Inr (mp', limit)"
      and s': "s' = fold (base4_region f) (until_beyond limit (regions fn)) s"
      by (auto simp: base4_func_def base4_regions_fold split: sum.splits prod.splits)
    from cached_limit_ok [OF assms(1) cl] obtain ls where
      ok: "cache_ok (Inr \<circ> base4_parse_file) e mp'" and ls: "files e f = Some ls"
      and lim: "(Inr \<circ> base4_parse_file) ls = Inr limit" by auto
    from True fs ls lim s' have
      "s' = fold (\<lambda>(f, r). base4_region f r)
                (reached_fn (str_in (cwd e)) (Inr \<circ> base4_parse_file) until_beyond e fn) (s)"
      by (simp add: reached_fn_def fold_map_Pair)
    with ok show ?thesis by simp
  qed
qed

lemma ru18_func_fold:
  assumes "cache_ok (ru18_parse_file) e mp" "ru18_func e fn (mp, s) = Inr (mp', s')"
  shows "cache_ok (ru18_parse_file) e mp' \<and>
         s' = fold (\<lambda>(f, r). ru18_region f r)
                (reached_fn (\<lambda>f. str_in (cwd e) f \<and> \<not> suffix ''rusty_monitor.rs'' f) (ru18_parse_file) until_beyond e fn) (s)"
proof -
  from assms(2) obtain f where f: "first_filename fn = Inr f"
    by (auto simp: ru18_func_def split: sum.splits)
  then have fs: "filenames fn = [f]" by (simp add: first_filename_Inr)
  show ?thesis
  proof (cases "(\<lambda>f. str_in (cwd e) f \<and> \<not> suffix ''rusty_monitor.rs'' f) f")
    case False
    with assms f fs show ?thesis by (auto simp: ru18_func_def reached_fn_def)
  next
    case True
    with assms(2) f obtain limit where
      cl: "cached_limit (ru18_parse_file) e mp f = Inr (mp', limit)"
      and s': "s' = fold (ru18_region f) (until_beyond limit (regions fn)) s"
      by (auto simp: ru18_func_def ru18_regions_fold split: sum.splits prod.splits)
    from cached_limit_ok [OF assms(1) cl] obtain ls where
      ok: "cache_ok (ru18_parse_file) e mp'" and ls: "files e f = Some ls"
      and lim: "(ru18_parse_file) ls = Inr limit" by auto
    from True fs ls lim s' have
      "s' = fold (\<lambda>(f, r). ru18_region f r)
                (reached_fn (\<lambda>f. str_in (cwd e) f \<and> \<not> suffix ''rusty_monitor.rs'' f) (ru18_parse_file) until_beyond e fn) (s)"
      by (simp add: reached_fn_def fold_map_Pair)
    with ok show ?thesis by simp
  qed
qed

lemma rulf_func_fold:
  assumes "cache_ok (Inr \<circ> rulf_parse_file) e mp" "rulf_func e fn (mp, s) = Inr (mp', s')"
  shows "cache_ok (Inr \<circ> rulf_parse_file) e mp' \<and>
         s' = fold (\<lambda>(f, r). rulf_region f r)
                (reached_fn (\<lambda>f. str_in (cwd e) f \<and> str_in ''src/'' f) (Inr \<circ> rulf_parse_file) not_beyond e fn) (s)"
proof -
  from assms(2) obtain f where f: "first_filename fn = Inr f"
    by (auto simp: rulf_func_def split: sum.splits)
  then have fs: "filenames fn = [f]" by (simp add: first_filename_Inr)
  show ?thesis
  proof (cases "(\<lambda>f. str_in (cwd e) f \<and> str_in ''src/'' f) f")
    case False
    with assms f fs show ?thesis by (auto simp: rulf_func_def reached_fn_def)
  next
    case True
    with assms(2) f obtain limit where
      cl: "cached_limit (Inr \<circ> rulf_parse_file) e mp f = Inr (mp', limit)"
      and s': "s' = fold (rulf_region f) (not_beyond limit (regions fn)) s"
      by (auto simp: rulf_func_def rulf_regions_fold split: sum.splits prod.splits)
    from cached_limit_ok [OF assms(1) cl] obtain ls where
      ok: "cache_ok (Inr \<circ> rulf_parse_file) e mp'" and ls: "files e f = Some ls"
      and lim: "(Inr \<circ> rulf_parse_file) ls = Inr limit" by auto
    from True fs ls lim s' have
      "s' = fold (\<lambda>(f, r). rulf_region f r)
                (reached_fn (\<lambda>f. str_in (cwd e) f \<and> str_in ''src/'' f) (Inr \<circ> rulf_parse_file) not_beyond e fn) (s)"
      by (simp add: reached_fn_def fold_map_Pair)
    with ok show ?thesis by simp
  qed
qed

lemma funcs_loop_fold:
  assumes body: "\<And>fn mp s mp' s'. \<lbrakk>cache_ok pf e mp; body fn (mp, s) = Inr (mp', s')\<rbrakk>
      \<Longrightarrow> cache_ok pf e mp' \<and> \<alpha> s' = fold step (reached_fn acc pf sel e fn) (\<alpha> s)"
  assumes "cache_ok pf e mp" "funcs_loop body fns (mp, s) = Inr (mp', s')"
  shows "cache_ok pf e mp' \<and> \<alpha> s' = fold step (reached acc pf sel e fns) (\<alpha> s)"
  using assms(2,3)
proof (induction fns arbitrary: mp s)
  case Nil
  then show ?case by (simp add: reached_def)
next
  case (Cons fn fns)
  from Cons.prems(2) obtain mp1 s1 where
    b: "body fn (mp, s) = Inr (mp1, s1)" and r: "funcs_loop body fns (mp1, s1) = Inr (mp', s')"
    by (auto split: sum.splits)
  from body [OF Cons.prems(1) b] have ok1: "cache_ok pf e mp1"
    and s1: "\<alpha> s1 = fold step (reached_fn acc pf sel e fn) (\<alpha> s)" by simp_all
  from Cons.IH [OF ok1 r] s1 show ?case by (simp add: reached_def)
qed

lemma base4_funcs_fold:
  assumes "funcs_loop (base4_func e) fns (Map.empty, S) = Inr (mp, T)"
  shows "T = fold (\<lambda>(f, r). base4_region f r) (base4_reached e fns) S"
proof -
  have body: "\<And>fn mp s mp' s'.
      \<lbrakk>cache_ok (Inr \<circ> base4_parse_file) e mp; base4_func e fn (mp, s) = Inr (mp', s')\<rbrakk>
      \<Longrightarrow> cache_ok (Inr \<circ> base4_parse_file) e mp' \<and>
          id s' = fold (\<lambda>(f, r). base4_region f r)
            (reached_fn (str_in (cwd e)) (Inr \<circ> base4_parse_file) until_beyond e fn) (id s)"
    using base4_func_fold by simp
  from funcs_loop_fold [where \<alpha> = id and step = "\<lambda>(f, r). base4_region f r"
      and acc = "str_in (cwd e)" and sel = until_beyond and pf = "Inr \<circ> base4_parse_file"
      and body = "base4_func e" and e = e, OF body cache_ok_empty assms]
  show ?thesis by (simp add: base4_reached_def)
qed

lemma ru18_funcs_fold:
  assumes "funcs_loop (ru18_func e) fns (Map.empty, S) = Inr (mp, T)"
  shows "T = fold (\<lambda>(f, r). ru18_region f r) (ru18_reached e fns) S"
proof -
  have body: "\<And>fn mp s mp' s'.
      \<lbrakk>cache_ok (ru18_parse_file) e mp; ru18_func e fn (mp, s) = Inr (mp', s')\<rbrakk>
      \<Longrightarrow> cache_ok (ru18_parse_file) e mp' \<and>
          id s' = fold (\<lambda>(f, r). ru18_region f r)
            (reached_fn (\<lambda>f. str_in (cwd e) f \<and> \<not> suffix ''rusty_monitor.rs'' f) (ru18_parse_file) until_beyond e fn) (id s)"
    using ru18_func_fold by simp
  from funcs_loop_fold [where \<alpha> = id and step = "\<lambda>(f, r). ru18_region f r"
      and acc = "\<lambda>f. str_in (cwd e) f \<and> \<not> suffix ''rusty_monitor.rs'' f" and sel = until_beyond and pf = "ru18_parse_file"
      and body = "ru18_func e" and e = e, OF body cache_ok_empty assms]
  show ?thesis by (simp add: ru18_reached_def)
qed


lemma rug_func_fold:
  assumes "cache_ok (Inr \<circ> rug_parse_file) e mp" "rug_func e fn (mp, s) = Inr (mp', s')"
  shows "cache_ok (Inr \<circ> rug_parse_file) e mp' \<and>
         fst s' = fold (\<lambda>(f, r). rug_store f r)
                (reached_fn (str_in (cwd e)) (Inr \<circ> rug_parse_file) until_beyond e fn) (fst s)"
proof -
  obtain m c where s: "s = (m, c)" by (cases s)
  from assms(2) obtain f where f: "first_filename fn = Inr f"
    by (auto simp: rug_func_def split: sum.splits)
  then have fs: "filenames fn = [f]" by (simp add: first_filename_Inr)
  show ?thesis
  proof (cases "str_in (cwd e) f")
    case False
    with assms f fs s show ?thesis by (auto simp: rug_func_def reached_fn_def)
  next
    case True
    with assms(2) f s obtain limit where
      cl: "cached_limit (Inr \<circ> rug_parse_file) e mp f = Inr (mp', limit)"
      and s': "fst s' = fst (rug_regions f limit (regions fn) (m, c, True, False))"
      by (auto simp: rug_func_def split: sum.splits prod.splits)
    from cached_limit_ok [OF assms(1) cl] obtain ls where
      ok: "cache_ok (Inr \<circ> rug_parse_file) e mp'" and ls: "files e f = Some ls"
      and lim: "(Inr \<circ> rug_parse_file) ls = Inr limit" by auto
    from True fs ls lim s' s have
      "fst s' = fold (\<lambda>(f, r). rug_store f r)
                (reached_fn (str_in (cwd e)) (Inr \<circ> rug_parse_file) until_beyond e fn) (fst s)"
      by (simp add: reached_fn_def fold_map_Pair rug_regions_fold)
    with ok show ?thesis by simp
  qed
qed

lemma rug_funcs_fold:
  assumes "funcs_loop (rug_func e) fns (Map.empty, S, c0) = Inr (mp, T, c)"
  shows "T = fold (\<lambda>(f, r). rug_store f r) (rug_reached e fns) S"
proof -
  from funcs_loop_fold [where \<alpha> = fst and step = "\<lambda>(f, r). rug_store f r"
      and acc = "str_in (cwd e)" and sel = until_beyond and pf = "Inr \<circ> rug_parse_file"
      and body = "rug_func e" and e = e, OF rug_func_fold cache_ok_empty assms]
  show ?thesis by (simp add: rug_reached_def)
qed

lemma rulf_targets_fold:
  assumes "cache_ok (Inr \<circ> rulf_parse_file) e mp" "rulf_targets e exports (mp, S) = Inr (mp', T)"
  shows "cache_ok (Inr \<circ> rulf_parse_file) e mp' \<and>
         T = fold (\<lambda>(f, r). rulf_region f r) (concat (map (rulf_reached e) exports)) S"
  using assms
proof (induction exports arbitrary: mp S)
  case Nil
  then show ?case by simp
next
  case (Cons fns rest)
  from Cons.prems(2) obtain mp1 S1 where
    a: "funcs_loop (rulf_func e) fns (mp, S) = Inr (mp1, S1)"
    and b: "rulf_targets e rest (mp1, S1) = Inr (mp', T)"
    by (auto split: sum.splits)
  have body: "\<And>fn mp s mp' s'.
      \<lbrakk>cache_ok (Inr \<circ> rulf_parse_file) e mp; rulf_func e fn (mp, s) = Inr (mp', s')\<rbrakk>
      \<Longrightarrow> cache_ok (Inr \<circ> rulf_parse_file) e mp' \<and>
          id s' = fold (\<lambda>(f, r). rulf_region f r)
            (reached_fn (\<lambda>f. str_in (cwd e) f \<and> str_in ''src/'' f) (Inr \<circ> rulf_parse_file)
               not_beyond e fn) (id s)"
    using rulf_func_fold by simp
  from funcs_loop_fold [where \<alpha> = id and step = "\<lambda>(f, r). rulf_region f r"
      and acc = "\<lambda>f. str_in (cwd e) f \<and> str_in ''src/'' f" and sel = not_beyond
      and pf = "Inr \<circ> rulf_parse_file" and body = "rulf_func e" and e = e,
      OF body Cons.prems(1) a]
  have ok1: "cache_ok (Inr \<circ> rulf_parse_file) e mp1"
    and S1: "S1 = fold (\<lambda>(f, r). rulf_region f r) (rulf_reached e fns) S"
    by (simp_all add: rulf_reached_def)
  from Cons.IH [OF ok1 b] S1 show ?case by simp
qed

lemma until_beyond_D: "r \<in> set (until_beyond limit rs) \<Longrightarrow> r \<in> set rs \<and> led r \<le> limit"
  unfolding until_beyond_def using set_takeWhileD [of r "\<lambda>r. \<not> led r > limit" rs] by auto

lemma not_beyond_D: "r \<in> set (not_beyond limit rs) \<Longrightarrow> r \<in> set rs \<and> led r \<le> limit"
  by (auto simp: not_beyond_def)

lemma reached_fn_D:
  assumes "(f, r) \<in> set (reached_fn acc pf sel e fn)"
  shows "filenames fn = [f] \<and> acc f \<and>
         (\<exists>ls limit. files e f = Some ls \<and> pf ls = Inr limit \<and> r \<in> set (sel limit (regions fn)))"
proof (cases "filenames fn")
  case Nil
  with assms show ?thesis by (simp add: reached_fn_def)
next
  case (Cons g gs)
  show ?thesis
  proof (cases "gs = [] \<and> acc g")
    case False
    with assms Cons show ?thesis by (simp add: reached_fn_def)
  next
    case True
    with assms Cons show ?thesis
      by (cases "files e g"; cases "pf (the (files e g))") (auto simp: reached_fn_def)
  qed
qed

lemma reached_D:
  assumes "(f, r) \<in> set (reached acc pf sel e fns)"
  shows "\<exists>fn \<in> set fns. filenames fn = [f] \<and> acc f \<and>
         (\<exists>ls limit. files e f = Some ls \<and> pf ls = Inr limit \<and> r \<in> set (sel limit (regions fn)))"
proof -
  from assms obtain fn where "fn \<in> set fns" "(f, r) \<in> set (reached_fn acc pf sel e fn)"
    by (auto simp: reached_def)
  with reached_fn_D [of f r acc pf sel e fn] show ?thesis by blast
qed

lemma keys_base4_region: "fst ` set (base4_region f r m) = insert (region_key f r) (fst ` set m)"
  by (simp add: base4_region_def Let_def dom_update)

lemma keys_ru18_region: "fst ` set (ru18_region f r m) = insert (region_key f r) (fst ` set m)"
  by (auto simp add: ru18_region_def Let_def dom_update)

lemma keys_rulf_region: "fst ` set (rulf_region f r m) = insert (region_key f r) (fst ` set m)"
  by (auto simp add: rulf_region_def Let_def dom_update split: option.splits)

lemma keys_rug_store: "fst ` set (rug_store f r m) = insert (region_key f r) (fst ` set m)"
  by (auto simp add: rug_store_def Let_def dom_update map_of_eq_None_iff)

lemma keys_fold:
  assumes "\<And>f r m. fst ` set (step f r m) = insert (region_key f r) (fst ` set m)"
  shows "fst ` set (fold (\<lambda>(f, r). step f r) xs m) = fst ` set m \<union> (\<lambda>(f, r). region_key f r) ` set xs"
proof (induction xs arbitrary: m)
  case Nil
  show ?case by simp
next
  case (Cons x xs)
  obtain f r where x: "x = (f, r)" by (cases x)
  have "fst ` set (fold (\<lambda>(f, r). step f r) (x # xs) m)
      = fst ` set (step f r m) \<union> (\<lambda>(f, r). region_key f r) ` set xs"
    using Cons.IH [of "step f r m"] x by simp
  also have "\<dots> = fst ` set m \<union> (\<lambda>(f, r). region_key f r) ` set (x # xs)"
    using x by (simp add: assms)
  finally show ?case .
qed

lemmas ex_defs = ex_env_def ex_func_def dep_func_def lib_func_def nofile_func_def zero_func_def
  five_func_def ten_lines_def three_lines_def
lemmas model_defs = first_filename_def cached_limit_def region_key_def py_str_def str_nat.simps
  digit_char_def dict_get_def Let_def
lemmas rug_defs = rug_collect_result_def rug_func_def rug_parse_file_def rug_marker_def
  zero_counters_def
lemmas base4_defs = base4_collect_result_def base4_load_def persist_def base4_func_def
  base4_region_def base4_parse_file_def base4_marker_def base4_reg_count_def base4_reg_total_def
lemmas rulf_defs = cov_select_def rulf_func_def rulf_parse_file_def rulf_marker_def rulf_region_def
  rulf_reg_count_def rulf_reg_total_def

section \<open>Keys that never enter the dictionary\<close>

lemma reached_key_D:
  assumes "region_key f r \<in> (\<lambda>(f, r). region_key f r) ` set (reached acc pf sel e fns)"
    and sel: "\<And>limit rs x. x \<in> set (sel limit rs) \<Longrightarrow> led x \<le> limit"
  shows "acc f \<and> (\<exists>ls limit. files e f = Some ls \<and> pf ls = Inr limit \<and> led r \<le> limit)"
proof -
  from assms(1) obtain f' r' where in_r: "(f', r') \<in> set (reached acc pf sel e fns)"
    and k: "region_key f r = region_key f' r'" by auto
  from region_key_inj [OF k] have ff: "f = f'" and ll: "led r = led r'" by simp_all
  from reached_D [OF in_r] obtain ls limit where "acc f'" "files e f' = Some ls"
    "pf ls = Inr limit" "led r' \<le> limit" using sel by blast
  with ff ll show ?thesis by auto
qed

lemma base4_keys:
  assumes "funcs_loop (base4_func e) fns (Map.empty, S) = Inr (mp, T)"
    and "region_key f r \<in> fst ` set T" "region_key f r \<notin> fst ` set S"
  shows "str_in (cwd e) f \<and> (\<exists>ls. files e f = Some ls \<and> led r \<le> base4_parse_file ls)"
proof -
  have "fst ` set T = fst ` set S \<union> (\<lambda>(f, r). region_key f r) ` set (base4_reached e fns)"
    unfolding base4_funcs_fold [OF assms(1)] by (rule keys_fold) (rule keys_base4_region)
  with assms(2,3) have "region_key f r \<in> (\<lambda>(f, r). region_key f r) ` set (base4_reached e fns)"
    by auto
  from reached_key_D [OF this [unfolded base4_reached_def]] until_beyond_D
  show ?thesis by fastforce
qed

lemma rug_keys:
  assumes "funcs_loop (rug_func e) fns (Map.empty, S, c0) = Inr (mp, T, c)"
    and "region_key f r \<in> fst ` set T" "region_key f r \<notin> fst ` set S"
  shows "str_in (cwd e) f \<and> (\<exists>ls. files e f = Some ls \<and> led r \<le> rug_parse_file ls)"
proof -
  have "fst ` set T = fst ` set S \<union> (\<lambda>(f, r). region_key f r) ` set (rug_reached e fns)"
    unfolding rug_funcs_fold [OF assms(1)] by (rule keys_fold) (rule keys_rug_store)
  with assms(2,3) have "region_key f r \<in> (\<lambda>(f, r). region_key f r) ` set (rug_reached e fns)"
    by auto
  from reached_key_D [OF this [unfolded rug_reached_def]] until_beyond_D
  show ?thesis by fastforce
qed

lemma reached_concat_D:
  assumes "region_key f r \<in> (\<lambda>(f, r). region_key f r) ` set (concat (map (rulf_reached e) exports))"
  shows "str_in (cwd e) f \<and> str_in ''src/'' f \<and>
         (\<exists>ls. files e f = Some ls \<and> led r \<le> rulf_parse_file ls)"
proof -
  from assms obtain f' r' fns where "(f', r') \<in> set (rulf_reached e fns)"
    and "region_key f r = region_key f' r'" by auto
  then have "region_key f r \<in> (\<lambda>(f, r). region_key f r) ` set (rulf_reached e fns)"
    by force
  from reached_key_D [OF this [unfolded rulf_reached_def]] not_beyond_D
  show ?thesis by fastforce
qed

lemma rulf_keys:
  assumes "rulf_targets e exports (Map.empty, S) = Inr (mp, T)"
    and "region_key f r \<in> fst ` set T" "region_key f r \<notin> fst ` set S"
  shows "str_in (cwd e) f \<and> str_in ''src/'' f \<and>
         (\<exists>ls. files e f = Some ls \<and> led r \<le> rulf_parse_file ls)"
proof -
  from rulf_targets_fold [OF cache_ok_empty assms(1)]
  have T: "T = fold (\<lambda>(f, r). rulf_region f r) (concat (map (rulf_reached e) exports)) S" by simp
  have "fst ` set T = fst ` set S \<union>
      (\<lambda>(f, r). region_key f r) ` set (concat (map (rulf_reached e) exports))"
    unfolding T by (rule keys_fold) (rule keys_rulf_region)
  with assms(2,3) have
    "region_key f r \<in> (\<lambda>(f, r). region_key f r) ` set (concat (map (rulf_reached e) exports))"
    by auto
  then show ?thesis by (rule reached_concat_D)
qed

lemma rug_collect_result_D:
  "rug_collect_result e fns = Inr (T, c) \<Longrightarrow>
     \<exists>mp. funcs_loop (rug_func e) fns (Map.empty, [], zero_counters) = Inr (mp, T, c)"
  by (auto simp: rug_collect_result_def split: sum.splits)

lemma base4_collect_result_D:
  "base4_collect_result e fs fns = Inr (fs', n, t) \<Longrightarrow>
     \<exists>S mp T. base4_load fs = Inr S \<and> funcs_loop (base4_func e) fns (Map.empty, S) = Inr (mp, T) \<and>
       fs' = fs(''cov_map.json'' \<mapsto> Dumped T) \<and> n = base4_reg_count T \<and> t = base4_reg_total T"
  by (auto simp: base4_collect_result_def persist_def split: sum.splits)

lemma cov_select_D:
  "cov_select e exports = Inr (T, n, t) \<Longrightarrow>
     \<exists>mp. rulf_targets e exports (Map.empty, []) = Inr (mp, T) \<and>
       n = rulf_reg_count T \<and> t = rulf_reg_total T"
  by (auto simp: cov_select_def split: sum.splits)

text \<open>
  C6. A region whose end line is greater than the limit that \<^verbatim>\<open>parse_file\<close> returns
  for its file never gets its key into the dictionary, whatever its count: after
  \<^verbatim>\<open>collect_result\<close> of \<^verbatim>\<open>llm_4_base_cov/main.py\<close> the snapshot holds that key only
  if the snapshot loaded at the start held it already, and after \<^verbatim>\<open>collect_result\<close> of
  \<^verbatim>\<open>rug-gpt/cov_collect.py\<close>, which starts from an empty dictionary, the key is absent.
\<close>

theorem boundary_filtering:
  assumes "files e f = Some ls"
  shows "(base4_collect_result e fs fns = Inr (fs', n, t) \<and> led r > base4_parse_file ls \<longrightarrow>
            (\<exists>S T. base4_load fs = Inr S \<and> fs' ''cov_map.json'' = Some (Dumped T) \<and>
                   (region_key f r \<in> fst ` set T \<longrightarrow> region_key f r \<in> fst ` set S))) \<and>
         (rug_collect_result e fns = Inr (T', c) \<and> led r > rug_parse_file ls \<longrightarrow>
            region_key f r \<notin> fst ` set T')"
proof (intro conjI impI)
  assume a: "base4_collect_result e fs fns = Inr (fs', n, t) \<and> led r > base4_parse_file ls"
  then obtain S mp T where S: "base4_load fs = Inr S"
    and l: "funcs_loop (base4_func e) fns (Map.empty, S) = Inr (mp, T)"
    and fs': "fs' = fs(''cov_map.json'' \<mapsto> Dumped T)"
    using base4_collect_result_D by blast
  have "region_key f r \<in> fst ` set S" if "region_key f r \<in> fst ` set T"
  proof (rule ccontr)
    assume "region_key f r \<notin> fst ` set S"
    from base4_keys [OF l that this] assms a show False by auto
  qed
  with S fs' show "\<exists>S T. base4_load fs = Inr S \<and> fs' ''cov_map.json'' = Some (Dumped T) \<and>
                   (region_key f r \<in> fst ` set T \<longrightarrow> region_key f r \<in> fst ` set S)"
    by auto
next
  assume a: "rug_collect_result e fns = Inr (T', c) \<and> led r > rug_parse_file ls"
  then obtain mp where l: "funcs_loop (rug_func e) fns (Map.empty, [], zero_counters) = Inr (mp, T', c)"
    using rug_collect_result_D by blast
  show "region_key f r \<notin> fst ` set T'"
  proof
    assume "region_key f r \<in> fst ` set T'"
    from rug_keys [OF l this] assms a show False by auto
  qed
qed

theorem boundary_filtering_witness:
  "files ex_env ''/w/src/a.rs'' = Some ten_lines \<and>
   base4_collect_result ex_env Map.empty [ex_func] =
     Inr (Map.empty(''cov_map.json'' \<mapsto> Dumped [(''/w/src/a.rs/2/1/5/2'', 1)]), 1, 1) \<and>
   9 > base4_parse_file ten_lines \<and>
   (\<exists>S T. base4_load Map.empty = Inr S \<and>
      (Map.empty(''cov_map.json'' \<mapsto> Dumped [(''/w/src/a.rs/2/1/5/2'', 1)])) ''cov_map.json'' = Some (Dumped T) \<and>
      (region_key ''/w/src/a.rs'' \<lparr>lst = 8, col_st = 1, led = 9, col_ed = 2, count = 1\<rparr> \<in> fst ` set T
         \<longrightarrow> region_key ''/w/src/a.rs'' \<lparr>lst = 8, col_st = 1, led = 9, col_ed = 2, count = 1\<rparr> \<in> fst ` set S)) \<and>
   rug_collect_result ex_env [ex_func] = Inr ([(''/w/src/a.rs/2/1/5/2'', 1)],
     \<lparr>reg_total = 1, reg_count = 1, line_total = 4, line_count = 4, func_total = 0, func_count = 0\<rparr>) \<and>
   9 > rug_parse_file ten_lines \<and>
   region_key ''/w/src/a.rs'' \<lparr>lst = 8, col_st = 1, led = 9, col_ed = 2, count = 1\<rparr>
     \<notin> fst ` set [(''/w/src/a.rs/2/1/5/2'', 1::int)]"
proof -
  have f: "files ex_env ''/w/src/a.rs'' = Some ten_lines" by (simp add: ex_env_def)
  have r: "rug_collect_result ex_env [ex_func] = Inr ([(''/w/src/a.rs/2/1/5/2'', 1)],
     \<lparr>reg_total = 1, reg_count = 1, line_total = 4, line_count = 4, func_total = 0, func_count = 0\<rparr>)"
    by (simp add: rug_defs ex_defs model_defs)
  have l: "led \<lparr>lst = 8, col_st = 1, led = 9, col_ed = 2, count = 1\<rparr> > rug_parse_file ten_lines"
    by (simp add: rug_parse_file_def rug_marker_def ten_lines_def)
  have b: "base4_collect_result ex_env Map.empty [ex_func] =
     Inr (Map.empty(''cov_map.json'' \<mapsto> Dumped [(''/w/src/a.rs/2/1/5/2'', 1)]), 1, 1)"
    by (simp add: base4_defs ex_defs model_defs)
  have lb: "led \<lparr>lst = 8, col_st = 1, led = 9, col_ed = 2, count = 1\<rparr> > base4_parse_file ten_lines"
    by (simp add: base4_parse_file_def base4_marker_def ten_lines_def)
  have lb': "9 > base4_parse_file ten_lines" using lb by simp
  note w = boundary_filtering [OF f, where fns = "[ex_func]" and fs = Map.empty
      and fs' = "Map.empty(''cov_map.json'' \<mapsto> Dumped [(''/w/src/a.rs/2/1/5/2'', 1)])"
      and n = 1 and t = 1
      and r = "\<lparr>lst = 8, col_st = 1, led = 9, col_ed = 2, count = 1\<rparr>"
      and T' = "[(''/w/src/a.rs/2/1/5/2'', 1)]"
      and c = "\<lparr>reg_total = 1, reg_count = 1, line_total = 4, line_count = 4,
                 func_total = 0, func_count = 0\<rparr>"]
  have l': "9 > rug_parse_file ten_lines" using l by simp
  from w r l f l' b lb lb' show ?thesis by blast
qed

text \<open>
  C7 (as the code has it). The test on the path is \<^verbatim>\<open>os.getcwd() in filename\<close>, a test
  for a substring (in \<^verbatim>\<open>cov_select\<close> together with \<^verbatim>\<open>'src/' in filename\<close>). A function
  record whose file name does not contain the working directory as a substring is
  passed over, and no region of that file gets a key into the dictionary.
\<close>

theorem root_filtering:
  "(rug_collect_result e fns = Inr (T, c) \<and> \<not> str_in (cwd e) f \<longrightarrow> region_key f r \<notin> fst ` set T) \<and>
   (cov_select e exports = Inr (T', n, t) \<and> \<not> (str_in (cwd e) f \<and> str_in ''src/'' f) \<longrightarrow>
      region_key f r \<notin> fst ` set T')"
proof (intro conjI impI)
  assume a: "rug_collect_result e fns = Inr (T, c) \<and> \<not> str_in (cwd e) f"
  then obtain mp where l: "funcs_loop (rug_func e) fns (Map.empty, [], zero_counters) = Inr (mp, T, c)"
    using rug_collect_result_D by blast
  show "region_key f r \<notin> fst ` set T"
  proof
    assume "region_key f r \<in> fst ` set T"
    from rug_keys [OF l this] a show False by auto
  qed
next
  assume a: "cov_select e exports = Inr (T', n, t) \<and> \<not> (str_in (cwd e) f \<and> str_in ''src/'' f)"
  then obtain mp where l: "rulf_targets e exports (Map.empty, []) = Inr (mp, T')"
    using cov_select_D by blast
  show "region_key f r \<notin> fst ` set T'"
  proof
    assume "region_key f r \<in> fst ` set T'"
    from rulf_keys [OF l this] a show False by auto
  qed
qed

theorem root_filtering_witness:
  "\<not> str_in (cwd ex_env) ''/usr/lib/b.rs'' \<and>
   rug_collect_result ex_env [ex_func, lib_func] = Inr ([(''/w/src/a.rs/2/1/5/2'', 1)],
     \<lparr>reg_total = 1, reg_count = 1, line_total = 4, line_count = 4, func_total = 0, func_count = 0\<rparr>) \<and>
   cov_select ex_env [[ex_func, lib_func]] = Inr ([(''/w/src/a.rs/2/1/5/2'', 4, 3)], 1, 1) \<and>
   region_key ''/usr/lib/b.rs'' \<lparr>lst = 1, col_st = 1, led = 2, col_ed = 2, count = 1\<rparr>
     \<notin> fst ` set [(''/w/src/a.rs/2/1/5/2'', 1::int)] \<and>
   region_key ''/usr/lib/b.rs'' \<lparr>lst = 1, col_st = 1, led = 2, col_ed = 2, count = 1\<rparr>
     \<notin> fst ` set [(''/w/src/a.rs/2/1/5/2'', 4::int, 3::int)]"
proof -
  have a: "\<not> str_in (cwd ex_env) ''/usr/lib/b.rs''" by (simp add: ex_env_def)
  have r: "rug_collect_result ex_env [ex_func, lib_func] = Inr ([(''/w/src/a.rs/2/1/5/2'', 1)],
     \<lparr>reg_total = 1, reg_count = 1, line_total = 4, line_count = 4, func_total = 0, func_count = 0\<rparr>)"
    by (simp add: rug_defs ex_defs model_defs)
  have s: "cov_select ex_env [[ex_func, lib_func]] = Inr ([(''/w/src/a.rs/2/1/5/2'', 4, 3)], 1, 1)"
    by (simp add: rulf_defs ex_defs model_defs)
  note w = root_filtering [where e = ex_env and fns = "[ex_func, lib_func]"
      and f = "''/usr/lib/b.rs''" and exports = "[[ex_func, lib_func]]"
      and r = "\<lparr>lst = 1, col_st = 1, led = 2, col_ed = 2, count = 1\<rparr>"
      and T = "[(''/w/src/a.rs/2/1/5/2'', 1)]" and T' = "[(''/w/src/a.rs/2/1/5/2'', 4, 3)]"
      and n = 1 and t = 1
      and c = "\<lparr>reg_total = 1, reg_count = 1, line_total = 4, line_count = 4,
                 func_total = 0, func_count = 0\<rparr>"]
  from w a r s show ?thesis by blast
qed

text \<open>
  C7 as the specification words it fails: \<^verbatim>\<open>/w\<close> is not a prefix of
  \<^verbatim>\<open>/x/w/src/a.rs\<close>, yet the function of that file is taken and its region is in the
  dictionary of both scripts.
\<close>

theorem root_filtering_counterexample:
  "\<not> prefix (cwd ex_env) ''/x/w/src/a.rs'' \<and>
   rug_collect_result ex_env [dep_func] = Inr ([(''/x/w/src/a.rs/1/1/2/2'', 1)],
     \<lparr>reg_total = 1, reg_count = 1, line_total = 2, line_count = 2, func_total = 1, func_count = 1\<rparr>) \<and>
   cov_select ex_env [[dep_func]] = Inr ([(''/x/w/src/a.rs/1/1/2/2'', 2, 1)], 1, 1) \<and>
   region_key ''/x/w/src/a.rs'' \<lparr>lst = 1, col_st = 1, led = 2, col_ed = 2, count = 1\<rparr>
     = ''/x/w/src/a.rs/1/1/2/2''"
  by (simp add: rug_defs rulf_defs ex_defs model_defs)

section \<open>Records without a file name\<close>

lemma funcs_loop_append:
  "funcs_loop body (xs @ ys) st =
     (case funcs_loop body xs st of Inl err \<Rightarrow> Inl err | Inr st' \<Rightarrow> funcs_loop body ys st')"
  by (induction xs arbitrary: st) (auto split: sum.splits)

lemma funcs_loop_all:
  assumes "funcs_loop body fns st = Inr st'" "fn \<in> set fns"
  shows "\<exists>s s'. body fn s = Inr s'"
  using assms by (induction fns arbitrary: st) (auto split: sum.splits)

lemma first_filename_empty: "filenames fn = [] \<Longrightarrow> first_filename fn = Inl IndexError"
  by (simp add: first_filename_def)

text \<open>
  C9. The assertion \<^verbatim>\<open>len(func['filenames']) <= 1\<close> lets a record with an empty list of
  file names through, and \<^verbatim>\<open>func['filenames'][0]\<close> then raises \<^verbatim>\<open>IndexError\<close>: the loop
  body fails on such a record, and so does the loop once it gets to it. The loop
  completes only when every record has exactly one file name.
\<close>

theorem empty_filenames_raise:
  "(filenames fn = [] \<longrightarrow>
      base4_func e fn st = Inl IndexError \<and> rug_func e fn st' = Inl IndexError) \<and>
   (filenames fn = [] \<and> funcs_loop (base4_func e) pre st = Inr st1 \<longrightarrow>
      funcs_loop (base4_func e) (pre @ fn # post) st = Inl IndexError) \<and>
   (filenames fn = [] \<and> funcs_loop (rug_func e) pre st' = Inr st1' \<longrightarrow>
      funcs_loop (rug_func e) (pre @ fn # post) st' = Inl IndexError) \<and>
   (funcs_loop (base4_func e) fns st = Inr st2 \<longrightarrow> (\<forall>g \<in> set fns. \<exists>f. filenames g = [f])) \<and>
   (funcs_loop (rug_func e) fns st' = Inr st2' \<longrightarrow> (\<forall>g \<in> set fns. \<exists>f. filenames g = [f]))"
proof -
  have b: "base4_func e g s = Inl IndexError" if "filenames g = []" for g s
    using that by (simp add: base4_func_def first_filename_empty)
  have r: "rug_func e g s = Inl IndexError" if "filenames g = []" for g s
    using that by (simp add: rug_func_def first_filename_empty)
  have b1: "\<exists>f. filenames g = [f]" if "base4_func e g s = Inr s'" for g s s'
    using that by (auto simp: base4_func_def first_filename_Inr split: sum.splits)
  have r1: "\<exists>f. filenames g = [f]" if "rug_func e g s = Inr s'" for g s s'
    using that by (auto simp: rug_func_def first_filename_Inr split: sum.splits)
  show ?thesis
  proof (intro conjI impI ballI)
    fix g assume "funcs_loop (base4_func e) fns st = Inr st2" "g \<in> set fns"
    from funcs_loop_all [OF this] b1 show "\<exists>f. filenames g = [f]" by blast
  next
    fix g assume "funcs_loop (rug_func e) fns st' = Inr st2'" "g \<in> set fns"
    from funcs_loop_all [OF this] r1 show "\<exists>f. filenames g = [f]" by blast
  qed (auto simp: funcs_loop_append b r)
qed

theorem empty_filenames_raise_witness:
  "filenames nofile_func = [] \<and>
   base4_func ex_env nofile_func (Map.empty, []) = Inl IndexError \<and>
   rug_func ex_env nofile_func (Map.empty, [], zero_counters) = Inl IndexError \<and>
   funcs_loop (base4_func ex_env) [lib_func] (Map.empty, []) = Inr (Map.empty, []) \<and>
   funcs_loop (base4_func ex_env) ([lib_func] @ nofile_func # [ex_func]) (Map.empty, []) = Inl IndexError \<and>
   funcs_loop (rug_func ex_env) [lib_func] (Map.empty, [], zero_counters) = Inr (Map.empty, [], zero_counters) \<and>
   funcs_loop (rug_func ex_env) ([lib_func] @ nofile_func # [ex_func]) (Map.empty, [], zero_counters) = Inl IndexError \<and>
   (\<exists>f. filenames lib_func = [f])"
proof -
  have a: "filenames nofile_func = []" by (simp add: nofile_func_def)
  have b: "funcs_loop (base4_func ex_env) [lib_func] (Map.empty, []) = Inr (Map.empty, [])"
    by (simp add: base4_func_def ex_defs model_defs)
  have r: "funcs_loop (rug_func ex_env) [lib_func] (Map.empty, [], zero_counters) = Inr (Map.empty, [], zero_counters)"
    by (simp add: rug_func_def ex_defs model_defs)
  note w = empty_filenames_raise [where fn = nofile_func and e = ex_env and st = "(Map.empty, [])"
      and st' = "(Map.empty, [], zero_counters)" and pre = "[lib_func]" and post = "[ex_func]"
      and fns = "[lib_func]" and ?st1.0 = "(Map.empty, [])" and st1' = "(Map.empty, [], zero_counters)"
      and ?st2.0 = "(Map.empty, [])" and st2' = "(Map.empty, [], zero_counters)"]
  have m: "lib_func \<in> set [lib_func]" by simp
  from w a b r m show ?thesis by blast
qed

section \<open>Regions beyond the limit\<close>

lemma rug_regions_break:
  assumes "\<forall>p \<in> set pre. led p \<le> limit" "led r > limit"
  shows "rug_regions f limit (pre @ r # post) (m, c, v, h) =
           (case rug_regions f limit pre (m, c, v, h) of (m', c', v', h') \<Rightarrow> (m', c', False, h'))"
  using assms by (induction pre arbitrary: m c v h) (auto simp: Let_def)

lemma until_beyond_break:
  assumes "\<forall>p \<in> set pre. led p \<le> limit" "led r > limit"
  shows "until_beyond limit (pre @ r # post) = pre"
  using assms by (induction pre) (auto simp: until_beyond_def)

lemma not_beyond_iff: "p \<in> set (not_beyond limit rs) \<longleftrightarrow> p \<in> set rs \<and> led p \<le> limit"
  by (auto simp: not_beyond_def)

lemma reached_I:
  assumes "fn \<in> set fns" "filenames fn = [f]" "acc f" "files e f = Some ls" "pf ls = Inr limit"
    and "p \<in> set (sel limit (regions fn))"
  shows "(f, p) \<in> set (reached acc pf sel e fns)"
proof -
  have "reached_fn acc pf sel e fn = map (Pair f) (sel limit (regions fn))"
    using assms(2-5) by (simp add: reached_fn_def)
  with assms(6) have "(f, p) \<in> set (reached_fn acc pf sel e fn)" by auto
  with assms(1) show ?thesis by (auto simp: reached_def)
qed

lemma rug_regions_func_counters:
  "func_total (fst (snd (rug_regions f limit rs (m, c, v, h)))) = func_total c \<and>
   func_count (fst (snd (rug_regions f limit rs (m, c, v, h)))) = func_count c"
  by (induction rs arbitrary: m c v h) (auto simp: Let_def)

lemma rug_func_break:
  assumes ok: "cache_ok (Inr \<circ> rug_parse_file) e mp"
    and run: "rug_func e fn (mp, m, c) = Inr (mp', m', c')"
    and fn: "filenames fn = [f]" "str_in (cwd e) f" "files e f = Some ls"
    and rs: "regions fn = pre @ r # post" "\<forall>p \<in> set pre. led p \<le> rug_parse_file ls"
      "led r > rug_parse_file ls"
  shows "fst ` set m' = fst ` set m \<union> region_key f ` set pre \<and>
         func_total c' = func_total c \<and> func_count c' = func_count c"
proof -
  let ?limit = "rug_parse_file ls"
  from fn(1) have ff: "first_filename fn = Inr f" by (simp add: first_filename_Inr)
  from run ff fn(2) obtain limit where
    cl: "cached_limit (Inr \<circ> rug_parse_file) e mp f = Inr (mp', limit)"
    by (auto simp: rug_func_def split: sum.splits prod.splits)
  from cached_limit_ok [OF ok cl] fn(3) have limit: "limit = ?limit" by auto
  obtain m1 c1 v1 h1 where
    pre: "rug_regions f ?limit pre (m, c, True, False) = (m1, c1, v1, h1)"
    by (cases "rug_regions f ?limit pre (m, c, True, False)")
  from rug_regions_break [OF rs(2,3), of f post m c True False] pre rs(1)
  have all: "rug_regions f ?limit (regions fn) (m, c, True, False) = (m1, c1, False, h1)"
    by simp
  from run ff fn(2) cl limit all have res: "m' = m1" "c' = c1"
    by (simp_all add: rug_func_def)
  from rug_regions_fold [of f ?limit pre m c True False] pre
  have "m1 = fold (rug_store f) pre m"
    using until_beyond_break [of pre ?limit] rs(2)
    by (simp add: until_beyond_def takeWhile_eq_all_conv [THEN iffD2] not_less)
  then have "m1 = fold (\<lambda>(f, r). rug_store f r) (map (Pair f) pre) m"
    by (simp add: fold_map_Pair)
  then have "fst ` set m1 = fst ` set m \<union> (\<lambda>(f, r). region_key f r) ` set (map (Pair f) pre)"
    using keys_fold [of rug_store "map (Pair f) pre" m, OF keys_rug_store] by simp
  then have keys: "fst ` set m1 = fst ` set m \<union> region_key f ` set pre"
    by (simp add: image_image)
  from rug_regions_func_counters [of f ?limit pre m c True False] pre
  have "func_total c1 = func_total c" "func_count c1 = func_count c" by simp_all
  with keys res show ?thesis by simp
qed

lemma rug_collect_break:
  assumes run: "rug_collect_result e fns = Inr (T, ct)"
    and fn: "fn \<in> set fns" "filenames fn = [f]" "str_in (cwd e) f" "files e f = Some ls"
    and rs: "regions fn = pre @ r # post" "\<forall>p \<in> set pre. led p \<le> rug_parse_file ls"
      "led r > rug_parse_file ls"
  shows "(\<forall>p \<in> set pre. region_key f p \<in> fst ` set T) \<and> region_key f r \<notin> fst ` set T"
proof
  from rug_collect_result_D [OF run] obtain mp where
    l: "funcs_loop (rug_func e) fns (Map.empty, [], zero_counters) = Inr (mp, T, ct)" by blast
  have keys: "fst ` set T = (\<lambda>(f, r). region_key f r) ` set (rug_reached e fns)"
    unfolding rug_funcs_fold [OF l]
    using keys_fold [of rug_store "rug_reached e fns" "[]", OF keys_rug_store] by simp
  show "\<forall>p \<in> set pre. region_key f p \<in> fst ` set T"
  proof
    fix p assume "p \<in> set pre"
    with rs have "p \<in> set (until_beyond (rug_parse_file ls) (regions fn))"
      by (simp add: until_beyond_break)
    with fn have "(f, p) \<in> set (rug_reached e fns)"
      unfolding rug_reached_def
      using reached_I [where fn = fn and fns = fns and f = f and acc = "str_in (cwd e)" and e = e
          and ls = ls and pf = "Inr \<circ> rug_parse_file" and limit = "rug_parse_file ls"
          and sel = until_beyond and p = p]
      by simp
    with keys show "region_key f p \<in> fst ` set T" by force
  qed
  show "region_key f r \<notin> fst ` set T"
  proof
    assume "region_key f r \<in> fst ` set T"
    from rug_keys [OF l this] fn(4) rs(3) show False by auto
  qed
qed

lemma cov_select_regions:
  assumes run: "cov_select e exports = Inr (T, n, t)"
    and fn: "fns \<in> set exports" "fn \<in> set fns" "filenames fn = [f]"
      "str_in (cwd e) f" "str_in ''src/'' f" "files e f = Some ls"
    and p: "p \<in> set (regions fn)"
  shows "region_key f p \<in> fst ` set T \<longleftrightarrow> led p \<le> rulf_parse_file ls"
proof
  from cov_select_D [OF run] obtain mp where
    l: "rulf_targets e exports (Map.empty, []) = Inr (mp, T)" by blast
  {
    assume "region_key f p \<in> fst ` set T"
    from rulf_keys [OF l this] fn(6) show "led p \<le> rulf_parse_file ls" by auto
  }
  {
    assume "led p \<le> rulf_parse_file ls"
    with p have "p \<in> set (not_beyond (rulf_parse_file ls) (regions fn))"
      by (simp add: not_beyond_iff)
    with fn have "(f, p) \<in> set (rulf_reached e fns)"
      unfolding rulf_reached_def
      using reached_I [where fn = fn and fns = fns and f = f
          and acc = "\<lambda>f. str_in (cwd e) f \<and> str_in ''src/'' f" and e = e
          and ls = ls and pf = "Inr \<circ> rulf_parse_file" and limit = "rulf_parse_file ls"
          and sel = not_beyond and p = p]
      by simp
    with fn(1) have in_all: "(f, p) \<in> set (concat (map (rulf_reached e) exports))" by auto
    from rulf_targets_fold [OF cache_ok_empty l]
    have "T = fold (\<lambda>(f, r). rulf_region f r) (concat (map (rulf_reached e) exports)) []"
      by simp
    then have "fst ` set T = (\<lambda>(f, r). region_key f r) ` set (concat (map (rulf_reached e) exports))"
      using keys_fold [of rulf_region "concat (map (rulf_reached e) exports)" "[]",
          OF keys_rulf_region] by simp
    with in_all show "region_key f p \<in> fst ` set T" by force
  }
qed

text \<open>
  C2 (as the code has it). When a region of a function record ends beyond the limit of
  its file, \<^verbatim>\<open>collect_result\<close> of \<^verbatim>\<open>rug-gpt/cov_collect.py\<close> leaves the loop at the first
  such region. The keys of the regions listed before it are in the dictionary after
  the record and after the whole run; the record adds no other key, so that region
  and the later ones are dropped, and the key of that region is in the dictionary of
  no run; the record is not counted in \<^verbatim>\<open>func_total\<close> or \<^verbatim>\<open>func_count\<close>.
  \<^verbatim>\<open>cov_select\<close> passes over exactly the regions that end beyond the limit: after the
  run the key of a region of an accepted record is in the dictionary if and only if
  the region ends within the limit, also when it is listed after one that was passed
  over.
\<close>

theorem regions_beyond_limit:
  "(cache_ok (Inr \<circ> rug_parse_file) e mp \<and> rug_func e fn (mp, m, c) = Inr (mp', m', c') \<and>
    filenames fn = [f] \<and> str_in (cwd e) f \<and> files e f = Some ls \<and>
    regions fn = pre @ r # post \<and> (\<forall>p \<in> set pre. led p \<le> rug_parse_file ls) \<and>
    led r > rug_parse_file ls \<longrightarrow>
      fst ` set m' = fst ` set m \<union> region_key f ` set pre \<and>
      func_total c' = func_total c \<and> func_count c' = func_count c) \<and>
   (rug_collect_result e fns = Inr (T, ct) \<and> fn \<in> set fns \<and>
    filenames fn = [f] \<and> str_in (cwd e) f \<and> files e f = Some ls \<and>
    regions fn = pre @ r # post \<and> (\<forall>p \<in> set pre. led p \<le> rug_parse_file ls) \<and>
    led r > rug_parse_file ls \<longrightarrow>
      (\<forall>p \<in> set pre. region_key f p \<in> fst ` set T) \<and> region_key f r \<notin> fst ` set T) \<and>
   (cov_select e exports = Inr (T', n, t) \<and> fns' \<in> set exports \<and> fn' \<in> set fns' \<and>
    filenames fn' = [f'] \<and> str_in (cwd e) f' \<and> str_in ''src/'' f' \<and> files e f' = Some ls' \<longrightarrow>
      (\<forall>p \<in> set (regions fn').
          (region_key f' p \<in> fst ` set T') = (led p \<le> rulf_parse_file ls'))) \<and>
   ((\<forall>p \<in> set pre. led p \<le> limit) \<and> led r > limit \<longrightarrow>
      rug_regions f limit (pre @ r # post) (m, c, v, h) =
        (case rug_regions f limit pre (m, c, v, h) of (m', c', v', h') \<Rightarrow> (m', c', False, h'))) \<and>
   rulf_regions f limit rs ms = fold (rulf_region f) (filter (\<lambda>p. led p \<le> limit) rs) ms"
proof (intro conjI)
  show "cache_ok (Inr \<circ> rug_parse_file) e mp \<and> rug_func e fn (mp, m, c) = Inr (mp', m', c') \<and>
    filenames fn = [f] \<and> str_in (cwd e) f \<and> files e f = Some ls \<and>
    regions fn = pre @ r # post \<and> (\<forall>p \<in> set pre. led p \<le> rug_parse_file ls) \<and>
    led r > rug_parse_file ls \<longrightarrow>
      fst ` set m' = fst ` set m \<union> region_key f ` set pre \<and>
      func_total c' = func_total c \<and> func_count c' = func_count c"
    using rug_func_break [of e mp fn m c mp' m' c' f ls pre r post] by blast
  show "rug_collect_result e fns = Inr (T, ct) \<and> fn \<in> set fns \<and>
    filenames fn = [f] \<and> str_in (cwd e) f \<and> files e f = Some ls \<and>
    regions fn = pre @ r # post \<and> (\<forall>p \<in> set pre. led p \<le> rug_parse_file ls) \<and>
    led r > rug_parse_file ls \<longrightarrow>
      (\<forall>p \<in> set pre. region_key f p \<in> fst ` set T) \<and> region_key f r \<notin> fst ` set T"
    using rug_collect_break [of e fns T ct fn f ls pre r post] by blast
  show "cov_select e exports = Inr (T', n, t) \<and> fns' \<in> set exports \<and> fn' \<in> set fns' \<and>
    filenames fn' = [f'] \<and> str_in (cwd e) f' \<and> str_in ''src/'' f' \<and> files e f' = Some ls' \<longrightarrow>
      (\<forall>p \<in> set (regions fn').
          (region_key f' p \<in> fst ` set T') = (led p \<le> rulf_parse_file ls'))"
    using cov_select_regions [of e exports T' n t fns' fn' f' ls'] by blast
  show "(\<forall>p \<in> set pre. led p \<le> limit) \<and> led r > limit \<longrightarrow>
      rug_regions f limit (pre @ r # post) (m, c, v, h) =
        (case rug_regions f limit pre (m, c, v, h) of (m', c', v', h') \<Rightarrow> (m', c', False, h'))"
    using rug_regions_break by blast
  show "rulf_regions f limit rs ms = fold (rulf_region f) (filter (\<lambda>p. led p \<le> limit) rs) ms"
    by (simp add: rulf_regions_fold not_beyond_def not_less)
qed

theorem regions_beyond_limit_witness:
  "rug_func ex_env ex_func (Map.empty, [], zero_counters) =
     Inr ([''/w/src/a.rs'' \<mapsto> 7], [(''/w/src/a.rs/2/1/5/2'', 1)],
          \<lparr>reg_total = 1, reg_count = 1, line_total = 4, line_count = 4, func_total = 0, func_count = 0\<rparr>) \<and>
   fst ` set [(''/w/src/a.rs/2/1/5/2'', 1::int)] =
     fst ` set ([] :: store) \<union>
     region_key ''/w/src/a.rs'' ` set [\<lparr>lst = 2, col_st = 1, led = 5, col_ed = 2, count = 3\<rparr>] \<and>
   func_total \<lparr>reg_total = 1, reg_count = 1, line_total = 4, line_count = 4, func_total = 0, func_count = 0\<rparr>
     = func_total zero_counters \<and>
   rug_collect_result ex_env [ex_func] = Inr ([(''/w/src/a.rs/2/1/5/2'', 1)],
     \<lparr>reg_total = 1, reg_count = 1, line_total = 4, line_count = 4, func_total = 0, func_count = 0\<rparr>) \<and>
   region_key ''/w/src/a.rs'' \<lparr>lst = 2, col_st = 1, led = 5, col_ed = 2, count = 3\<rparr>
     \<in> fst ` set [(''/w/src/a.rs/2/1/5/2'', 1::int)] \<and>
   region_key ''/w/src/a.rs'' \<lparr>lst = 8, col_st = 1, led = 9, col_ed = 2, count = 1\<rparr>
     \<notin> fst ` set [(''/w/src/a.rs/2/1/5/2'', 1::int)] \<and>
   cov_select ex_env [[ex_func]] = Inr ([(''/w/src/a.rs/2/1/5/2'', 4, 3)], 1, 1) \<and>
   (region_key ''/w/src/a.rs'' \<lparr>lst = 2, col_st = 1, led = 5, col_ed = 2, count = 3\<rparr>
      \<in> fst ` set [(''/w/src/a.rs/2/1/5/2'', 4::int, 3::int)]) =
     (led \<lparr>lst = 2, col_st = 1, led = 5, col_ed = 2, count = 3\<rparr> \<le> rulf_parse_file ten_lines) \<and>
   (region_key ''/w/src/a.rs'' \<lparr>lst = 8, col_st = 1, led = 9, col_ed = 2, count = 1\<rparr>
      \<in> fst ` set [(''/w/src/a.rs/2/1/5/2'', 4::int, 3::int)]) =
     (led \<lparr>lst = 8, col_st = 1, led = 9, col_ed = 2, count = 1\<rparr> \<le> rulf_parse_file ten_lines)"
proof -
  let ?f = "''/w/src/a.rs''"
  let ?r1 = "\<lparr>lst = 2, col_st = 1, led = 5, col_ed = 2, count = 3\<rparr>"
  let ?r2 = "\<lparr>lst = 8, col_st = 1, led = 9, col_ed = 2, count = 1\<rparr>"
  let ?c = "\<lparr>reg_total = 1, reg_count = 1, line_total = 4, line_count = 4,
             func_total = 0, func_count = 0\<rparr>"
  have ok: "cache_ok (Inr \<circ> rug_parse_file) ex_env Map.empty" by (rule cache_ok_empty)
  have run: "rug_func ex_env ex_func (Map.empty, [], zero_counters) =
     Inr ([?f \<mapsto> 7], [(''/w/src/a.rs/2/1/5/2'', 1)], ?c)"
    by (simp add: rug_defs ex_defs model_defs)
  have col: "rug_collect_result ex_env [ex_func] = Inr ([(''/w/src/a.rs/2/1/5/2'', 1)], ?c)"
    by (simp add: rug_defs ex_defs model_defs)
  have sel: "cov_select ex_env [[ex_func]] = Inr ([(''/w/src/a.rs/2/1/5/2'', 4, 3)], 1, 1)"
    by (simp add: rulf_defs ex_defs model_defs)
  have fn: "filenames ex_func = [?f]" "str_in (cwd ex_env) ?f" "str_in ''src/'' ?f"
    "files ex_env ?f = Some ten_lines" "regions ex_func = [?r1] @ ?r2 # []"
    "ex_func \<in> set [ex_func]" "[ex_func] \<in> set [[ex_func]]"
    by (simp_all add: ex_env_def ex_func_def)
  have lim: "\<forall>p \<in> set [?r1]. led p \<le> rug_parse_file ten_lines" "led ?r2 > rug_parse_file ten_lines"
    by (simp_all add: rug_parse_file_def rug_marker_def ten_lines_def)
  have mem: "?r1 \<in> set [?r1]" "?r1 \<in> set (regions ex_func)" "?r2 \<in> set (regions ex_func)"
    by (simp_all add: ex_func_def)
  note w = regions_beyond_limit [where e = ex_env and mp = Map.empty and fn = ex_func
      and m = "[]" and c = zero_counters and mp' = "[?f \<mapsto> 7]"
      and m' = "[(''/w/src/a.rs/2/1/5/2'', 1)]" and c' = ?c and f = ?f and ls = ten_lines
      and pre = "[?r1]" and r = ?r2 and post = "[]" and fns = "[ex_func]"
      and T = "[(''/w/src/a.rs/2/1/5/2'', 1)]" and ct = ?c and exports = "[[ex_func]]"
      and T' = "[(''/w/src/a.rs/2/1/5/2'', 4, 3)]" and n = 1 and t = 1 and fns' = "[ex_func]"
      and fn' = ex_func and f' = ?f and ls' = ten_lines]
  have h1: "cache_ok (Inr \<circ> rug_parse_file) ex_env Map.empty \<and>
    rug_func ex_env ex_func (Map.empty, [], zero_counters) =
      Inr ([?f \<mapsto> 7], [(''/w/src/a.rs/2/1/5/2'', 1)], ?c) \<and>
    filenames ex_func = [?f] \<and> str_in (cwd ex_env) ?f \<and> files ex_env ?f = Some ten_lines \<and>
    regions ex_func = [?r1] @ ?r2 # [] \<and> (\<forall>p \<in> set [?r1]. led p \<le> rug_parse_file ten_lines) \<and>
    led ?r2 > rug_parse_file ten_lines"
    by (intro conjI ok run fn lim)
  have h2: "rug_collect_result ex_env [ex_func] = Inr ([(''/w/src/a.rs/2/1/5/2'', 1)], ?c) \<and>
    ex_func \<in> set [ex_func] \<and>
    filenames ex_func = [?f] \<and> str_in (cwd ex_env) ?f \<and> files ex_env ?f = Some ten_lines \<and>
    regions ex_func = [?r1] @ ?r2 # [] \<and> (\<forall>p \<in> set [?r1]. led p \<le> rug_parse_file ten_lines) \<and>
    led ?r2 > rug_parse_file ten_lines"
    by (intro conjI col fn lim)
  have h3: "cov_select ex_env [[ex_func]] = Inr ([(''/w/src/a.rs/2/1/5/2'', 4, 3)], 1, 1) \<and>
    [ex_func] \<in> set [[ex_func]] \<and> ex_func \<in> set [ex_func] \<and>
    filenames ex_func = [?f] \<and> str_in (cwd ex_env) ?f \<and> str_in ''src/'' ?f \<and>
    files ex_env ?f = Some ten_lines"
    by (intro conjI sel fn)
  note c1 = w [THEN conjunct1, THEN mp, OF h1]
  note c2 = w [THEN conjunct2, THEN conjunct1, THEN mp, OF h2]
  note c3 = w [THEN conjunct2, THEN conjunct2, THEN conjunct1, THEN mp, OF h3]
  note k1 = c1 [THEN conjunct1]
  note k2 = c1 [THEN conjunct2, THEN conjunct1]
  note k3 = c2 [THEN conjunct1, THEN bspec, OF mem(1)]
  note k4 = c2 [THEN conjunct2]
  note k5 = c3 [THEN bspec, OF mem(2)]
  note k6 = c3 [THEN bspec, OF mem(3)]
  show ?thesis by (intro conjI run k1 k2 col k3 k4 sel k5 k6)
qed

text \<open>
  C2 as the specification words it fails: the second region of the example function
  ends beyond the limit of its file, and the key of its first region is in the
  dictionary of both scripts all the same.
\<close>

theorem regions_beyond_limit_counterexample:
  "led (regions ex_func ! 1) > rug_parse_file ten_lines \<and>
   led (regions ex_func ! 1) > rulf_parse_file ten_lines \<and>
   region_key ''/w/src/a.rs'' (regions ex_func ! 0) = ''/w/src/a.rs/2/1/5/2'' \<and>
   rug_collect_result ex_env [ex_func] = Inr ([(''/w/src/a.rs/2/1/5/2'', 1)],
     \<lparr>reg_total = 1, reg_count = 1, line_total = 4, line_count = 4, func_total = 0, func_count = 0\<rparr>) \<and>
   cov_select ex_env [[ex_func]] = Inr ([(''/w/src/a.rs/2/1/5/2'', 4, 3)], 1, 1)"
  by (simp add: rug_defs rulf_defs ex_defs model_defs)

section \<open>Merging never loses coverage\<close>

lemma update_filter_mono:
  assumes "\<And>v0. map_of m k = Some v0 \<Longrightarrow> P v0 \<Longrightarrow> P v"
  shows "length (filter (\<lambda>(k, v). P v) m) \<le> length (filter (\<lambda>(k, v). P v) (AList.update k v m))"
  using assms by (induction m) (auto split: if_splits)

lemma update_length_mono: "length m \<le> length (AList.update k v m)"
  by (induction m) auto

lemma base4_region_mono:
  "length (filter (\<lambda>(k, v). v \<noteq> 0) m) \<le> length (filter (\<lambda>(k, v). v \<noteq> 0) (base4_region f r m)) \<and>
   length m \<le> length (base4_region f r m) \<and>
   (dict_get m k 0 \<noteq> 0 \<longrightarrow> dict_get (base4_region f r m) k 0 \<noteq> 0)"
proof (intro conjI)
  show "length (filter (\<lambda>(k, v). v \<noteq> 0) m) \<le> length (filter (\<lambda>(k, v). v \<noteq> 0) (base4_region f r m))"
    unfolding base4_region_def Let_def
    by (auto intro!: update_filter_mono [where P = "\<lambda>v. v \<noteq> 0"] simp: dict_get_def)
  show "length m \<le> length (base4_region f r m)"
    by (simp add: base4_region_def Let_def update_length_mono)
  show "dict_get m k 0 \<noteq> 0 \<longrightarrow> dict_get (base4_region f r m) k 0 \<noteq> 0"
    by (auto simp: base4_region_def Let_def dict_get_def update_conv' split: option.splits)
qed

lemma ru18_region_mono:
  "length (filter (\<lambda>(k, v). v > 0) m) \<le> length (filter (\<lambda>(k, v). v > 0) (ru18_region f r m)) \<and>
   length m \<le> length (ru18_region f r m) \<and>
   (map_of m k = Some v \<longrightarrow> (\<exists>v'. map_of (ru18_region f r m) k = Some v' \<and> v \<le> v'))"
proof (intro conjI)
  let ?k = "region_key f r"
  let ?m' = "if map_of m ?k = None then AList.update ?k 0 m else m"
  have 1: "length (filter (\<lambda>(k, v). v > 0) m) \<le> length (filter (\<lambda>(k, v). v > 0) ?m')"
    by (auto intro!: update_filter_mono [where P = "\<lambda>v. v > 0"])
  have 2: "length (filter (\<lambda>(k, v). v > 0) ?m')
      \<le> length (filter (\<lambda>(k, v). v > 0) (AList.update ?k (max (count r) (dict_get ?m' ?k 0)) ?m'))"
    by (rule update_filter_mono [where P = "\<lambda>v. v > 0"]) (auto simp: dict_get_def)
  from 1 2 show "length (filter (\<lambda>(k, v). v > 0) m) \<le> length (filter (\<lambda>(k, v). v > 0) (ru18_region f r m))"
    by (simp add: ru18_region_def Let_def)
  have "length m \<le> length ?m'" by (simp add: update_length_mono)
  also have "\<dots> \<le> length (AList.update ?k (max (count r) (dict_get ?m' ?k 0)) ?m')"
    by (rule update_length_mono)
  finally show "length m \<le> length (ru18_region f r m)" by (simp add: ru18_region_def Let_def)
  show "map_of m k = Some v \<longrightarrow> (\<exists>v'. map_of (ru18_region f r m) k = Some v' \<and> v \<le> v')"
    by (auto simp: ru18_region_def Let_def dict_get_def update_conv')
qed

lemma fold_base4_mono:
  "length (filter (\<lambda>(k, v). v \<noteq> 0) m) \<le> length (filter (\<lambda>(k, v). v \<noteq> 0) (fold (\<lambda>(f, r). base4_region f r) xs m)) \<and>
   length m \<le> length (fold (\<lambda>(f, r). base4_region f r) xs m) \<and>
   (dict_get m k 0 \<noteq> 0 \<longrightarrow> dict_get (fold (\<lambda>(f, r). base4_region f r) xs m) k 0 \<noteq> 0)"
proof (induction xs arbitrary: m)
  case Nil
  show ?case by simp
next
  case (Cons x xs)
  obtain f r where x: "x = (f, r)" by (cases x)
  from base4_region_mono [of m f r k] Cons.IH [of "base4_region f r m"] x
  show ?case by (auto simp del: split_paired_All)
qed

lemma fold_ru18_mono:
  "length (filter (\<lambda>(k, v). v > 0) m) \<le> length (filter (\<lambda>(k, v). v > 0) (fold (\<lambda>(f, r). ru18_region f r) xs m)) \<and>
   length m \<le> length (fold (\<lambda>(f, r). ru18_region f r) xs m) \<and>
   (map_of m k = Some v \<longrightarrow> (\<exists>v'. map_of (fold (\<lambda>(f, r). ru18_region f r) xs m) k = Some v' \<and> v \<le> v'))"
proof (induction xs arbitrary: m v)
  case Nil
  show ?case by simp
next
  case (Cons x xs)
  obtain f r where x: "x = (f, r)" by (cases x)
  have a: "length (filter (\<lambda>(k, v). v > 0) m) \<le> length (filter (\<lambda>(k, v). v > 0) (fold (\<lambda>(f, r). ru18_region f r) (x # xs) m))"
    using ru18_region_mono [of m f r k v] Cons.IH [of "ru18_region f r m" v] x by auto
  have b: "length m \<le> length (fold (\<lambda>(f, r). ru18_region f r) (x # xs) m)"
    using ru18_region_mono [of m f r k v] Cons.IH [of "ru18_region f r m" v] x by auto
  have c: "\<exists>v'. map_of (fold (\<lambda>(f, r). ru18_region f r) (x # xs) m) k = Some v' \<and> v \<le> v'"
    if "map_of m k = Some v"
  proof -
    from ru18_region_mono [of m f r k v] that obtain v1 where
      v1: "map_of (ru18_region f r m) k = Some v1" "v \<le> v1" by blast
    from Cons.IH [of "ru18_region f r m" v1] v1 obtain v' where
      "map_of (fold (\<lambda>(f, r). ru18_region f r) xs (ru18_region f r m)) k = Some v'" "v1 \<le> v'"
      by blast
    with v1 x show ?thesis by auto
  qed
  from a b c show ?case by blast
qed

lemma base4_region_flag:
  assumes "map_of m k = Some v" "v \<le> 1"
  shows "\<exists>v'. map_of (base4_region f r m) k = Some v' \<and> v \<le> v' \<and> v' \<le> 1"
  using assms by (auto simp: base4_region_def Let_def update_conv' dict_get_def)

lemma fold_base4_flag:
  assumes "map_of m k = Some v" "v \<le> 1"
  shows "\<exists>v'. map_of (fold (\<lambda>(f, r). base4_region f r) xs m) k = Some v' \<and> v \<le> v' \<and> v' \<le> 1"
  using assms
proof (induction xs arbitrary: m v)
  case Nil
  then show ?case by simp
next
  case (Cons x xs)
  obtain f r where x: "x = (f, r)" by (cases x)
  from base4_region_flag [OF Cons.prems, of f r] obtain v1 where
    v1: "map_of (base4_region f r m) k = Some v1" "v \<le> v1" "v1 \<le> 1" by blast
  from Cons.IH [OF v1(1,3)] obtain v' where
    "map_of (fold (\<lambda>(f, r). base4_region f r) xs (base4_region f r m)) k = Some v'"
    "v1 \<le> v'" "v' \<le> 1" by blast
  with v1(2) x show ?case by auto
qed

text \<open>
  C4. Merging an export never takes coverage away. In \<^verbatim>\<open>llm_4_base_cov/main.py\<close> a key
  whose entry in the loaded snapshot is not zero has an entry that is not zero in the
  snapshot written, an entry that is a flag (at most 1) is never lowered, and both
  printed numbers are at least what they are for the
  loaded snapshot. In \<^verbatim>\<open>rusty-unit-18/t.py\<close> the loop over the function records never
  lowers the count stored for a key, and the number of keys and the number of keys with
  a positive count never go down.
\<close>

theorem merge_monotone:
  "(base4_load fs = Inr S \<and> base4_collect_result e fs fns = Inr (fs', n, t) \<longrightarrow>
      base4_reg_count S \<le> n \<and> base4_reg_total S \<le> t \<and>
      (\<exists>T. fs' ''cov_map.json'' = Some (Dumped T) \<and>
           (\<forall>k. dict_get S k 0 \<noteq> 0 \<longrightarrow> dict_get T k 0 \<noteq> 0) \<and>
           (\<forall>k v. map_of S k = Some v \<and> v \<le> 1 \<longrightarrow> (\<exists>v'. map_of T k = Some v' \<and> v \<le> v')))) \<and>
   (funcs_loop (ru18_func e) fns (Map.empty, S') = Inr (mp, T') \<longrightarrow>
      ru18_reg_count S' \<le> ru18_reg_count T' \<and> ru18_reg_total S' \<le> ru18_reg_total T' \<and>
      (\<forall>k v. map_of S' k = Some v \<longrightarrow> (\<exists>v'. map_of T' k = Some v' \<and> v \<le> v')))"
proof (intro conjI impI)
  assume a: "base4_load fs = Inr S \<and> base4_collect_result e fs fns = Inr (fs', n, t)"
  then obtain mp0 T where l: "funcs_loop (base4_func e) fns (Map.empty, S) = Inr (mp0, T)"
    and fs': "fs' = fs(''cov_map.json'' \<mapsto> Dumped T)"
    and n: "n = base4_reg_count T" and t: "t = base4_reg_total T"
    using base4_collect_result_D [of e fs fns fs' n t] by auto
  note T = base4_funcs_fold [OF l]
  from fold_base4_mono [where m = S and xs = "base4_reached e fns"] T n t
  show "base4_reg_count S \<le> n" and "base4_reg_total S \<le> t"
    by (simp_all add: base4_reg_count_def base4_reg_total_def)
  have "\<forall>k v. map_of S k = Some v \<and> v \<le> 1 \<longrightarrow> (\<exists>v'. map_of T k = Some v' \<and> v \<le> v')"
    unfolding T using fold_base4_flag by blast
  with fold_base4_mono [where m = S and xs = "base4_reached e fns"] T fs'
  show "\<exists>T. fs' ''cov_map.json'' = Some (Dumped T) \<and>
           (\<forall>k. dict_get S k 0 \<noteq> 0 \<longrightarrow> dict_get T k 0 \<noteq> 0) \<and>
           (\<forall>k v. map_of S k = Some v \<and> v \<le> 1 \<longrightarrow> (\<exists>v'. map_of T k = Some v' \<and> v \<le> v'))"
    by simp
next
  assume l: "funcs_loop (ru18_func e) fns (Map.empty, S') = Inr (mp, T')"
  note T = ru18_funcs_fold [OF l]
  from fold_ru18_mono [where m = S' and xs = "ru18_reached e fns"] T
  show "ru18_reg_count S' \<le> ru18_reg_count T'" and "ru18_reg_total S' \<le> ru18_reg_total T'"
    by (simp_all add: ru18_reg_count_def ru18_reg_total_def)
  from fold_ru18_mono [where m = S' and xs = "ru18_reached e fns"] T
  show "\<forall>k v. map_of S' k = Some v \<longrightarrow> (\<exists>v'. map_of T' k = Some v' \<and> v \<le> v')"
    by simp
qed

theorem merge_monotone_witness:
  "base4_load ex_snapshot = Inr [(''/w/src/a.rs/1/1/1/9'', 1)] \<and>
   base4_collect_result ex_env ex_snapshot [ex_func] =
     Inr (ex_snapshot(''cov_map.json'' \<mapsto> Dumped [(''/w/src/a.rs/1/1/1/9'', 1), (''/w/src/a.rs/2/1/5/2'', 1)]), 2, 2) \<and>
   base4_reg_count [(''/w/src/a.rs/1/1/1/9'', 1)] \<le> 2 \<and>
   base4_reg_total [(''/w/src/a.rs/1/1/1/9'', 1)] \<le> 2 \<and>
   funcs_loop (ru18_func ex_env) [ex_func] (Map.empty, [(''/w/src/a.rs/2/1/5/2'', 1)]) =
     Inr ([''/w/src/a.rs'' \<mapsto> 7], [(''/w/src/a.rs/2/1/5/2'', 3)]) \<and>
   ru18_reg_count [(''/w/src/a.rs/2/1/5/2'', 1)] \<le> ru18_reg_count [(''/w/src/a.rs/2/1/5/2'', 3)] \<and>
   ru18_reg_total [(''/w/src/a.rs/2/1/5/2'', 1)] \<le> ru18_reg_total [(''/w/src/a.rs/2/1/5/2'', 3)]"
proof -
  have a: "base4_load ex_snapshot = Inr [(''/w/src/a.rs/1/1/1/9'', 1)]"
    by (simp add: base4_load_def ex_snapshot_def)
  have b: "base4_collect_result ex_env ex_snapshot [ex_func] =
     Inr (ex_snapshot(''cov_map.json'' \<mapsto> Dumped [(''/w/src/a.rs/1/1/1/9'', 1), (''/w/src/a.rs/2/1/5/2'', 1)]), 2, 2)"
    by (simp add: base4_defs ex_defs ex_snapshot_def model_defs)
  have c: "funcs_loop (ru18_func ex_env) [ex_func] (Map.empty, [(''/w/src/a.rs/2/1/5/2'', 1)]) =
     Inr ([''/w/src/a.rs'' \<mapsto> 7], [(''/w/src/a.rs/2/1/5/2'', 3)])"
    by (simp add: ru18_func_def ru18_region_def ru18_parse_file_def rug_marker_def suffix_to_prefix ex_defs model_defs)
  note w = merge_monotone [where fs = ex_snapshot and S = "[(''/w/src/a.rs/1/1/1/9'', 1)]"
      and e = ex_env and fns = "[ex_func]" and n = 2 and t = 2
      and fs' = "ex_snapshot(''cov_map.json'' \<mapsto> Dumped [(''/w/src/a.rs/1/1/1/9'', 1), (''/w/src/a.rs/2/1/5/2'', 1)])"
      and S' = "[(''/w/src/a.rs/2/1/5/2'', 1)]" and mp = "[''/w/src/a.rs'' \<mapsto> 7]"
      and T' = "[(''/w/src/a.rs/2/1/5/2'', 3)]"]
  from w a b c show ?thesis by blast
qed

section \<open>Writing the snapshot\<close>

text \<open>
  C8 (as the code has it). The snapshot is written in place: \<^verbatim>\<open>open('cov_map.json', 'w')\<close>
  truncates the file at the snapshot path itself, and the dump is then written into
  it. No other path is written, so there is no temporary file and no rename. After
  the \<^verbatim>\<open>open\<close> and before the dump is complete the path holds no snapshot, neither
  the prior one nor the new one, and loading it fails; after the dump it holds the new
  one.
\<close>

theorem persist_in_place:
  "hd (persist m fs) ''cov_map.json'' = Some Truncated \<and>
   base4_load (hd (persist m fs)) = Inl JSONDecodeError \<and>
   last (persist m fs) ''cov_map.json'' = Some (Dumped m) \<and>
   base4_load (last (persist m fs)) = Inr m \<and>
   (\<forall>s \<in> set (persist m fs). \<forall>p. p \<noteq> ''cov_map.json'' \<longrightarrow> s p = fs p)"
  by (simp add: persist_def base4_load_def)

theorem persist_in_place_witness:
  "hd (persist [(''/w/src/a.rs/2/1/5/2'', 1)] ex_snapshot) ''cov_map.json'' = Some Truncated \<and>
   last (persist [(''/w/src/a.rs/2/1/5/2'', 1)] ex_snapshot) ''cov_map.json''
     = Some (Dumped [(''/w/src/a.rs/2/1/5/2'', 1)]) \<and>
   hd (persist [(''/w/src/a.rs/2/1/5/2'', 1)] ex_snapshot) ''cov_map.json.tmp'' = None \<and>
   last (persist [(''/w/src/a.rs/2/1/5/2'', 1)] ex_snapshot) ''cov_map.json.tmp'' = None"
proof -
  note w = persist_in_place [where m = "[(''/w/src/a.rs/2/1/5/2'', 1)]" and fs = ex_snapshot]
  have n: "ex_snapshot ''cov_map.json.tmp'' = None" "''cov_map.json.tmp'' \<noteq> ''cov_map.json''"
    by (simp_all add: ex_snapshot_def)
  have s: "hd (persist [(''/w/src/a.rs/2/1/5/2'', 1)] ex_snapshot)
        \<in> set (persist [(''/w/src/a.rs/2/1/5/2'', 1)] ex_snapshot)"
    "last (persist [(''/w/src/a.rs/2/1/5/2'', 1)] ex_snapshot)
        \<in> set (persist [(''/w/src/a.rs/2/1/5/2'', 1)] ex_snapshot)"
    by (simp_all add: persist_def)
  from w n s show ?thesis by metis
qed

text \<open>
  C8 as the specification words it fails: while the new store is being written over
  the example snapshot, the snapshot path holds neither the prior snapshot nor the
  new one, and a run that loads it then fails.
\<close>

theorem persist_in_place_counterexample:
  "hd (persist [(''/w/src/a.rs/2/1/5/2'', 1)] ex_snapshot) ''cov_map.json''
     \<noteq> ex_snapshot ''cov_map.json'' \<and>
   hd (persist [(''/w/src/a.rs/2/1/5/2'', 1)] ex_snapshot) ''cov_map.json''
     \<noteq> Some (Dumped [(''/w/src/a.rs/2/1/5/2'', 1)]) \<and>
   base4_load ex_snapshot = Inr [(''/w/src/a.rs/1/1/1/9'', 1)] \<and>
   base4_load (hd (persist [(''/w/src/a.rs/2/1/5/2'', 1)] ex_snapshot)) = Inl JSONDecodeError"
  by (simp add: persist_def ex_snapshot_def base4_load_def)

section \<open>Which keys count as covered\<close>












section \<open>Merging the same export again\<close>

lemma update_same_iff: "AList.update k v m = m \<longleftrightarrow> map_of m k = Some v"
proof
  assume "AList.update k v m = m"
  then have "map_of m k = map_of (AList.update k v m) k" by simp
  then show "map_of m k = Some v" by (simp add: update_conv')
qed (rule update_triv)

lemma base4_region_absorbed:
  "base4_region f r m = m \<longleftrightarrow>
     (\<exists>v. map_of m (region_key f r) = Some v \<and> (count r > 0 \<longrightarrow> v = 1))"
  by (auto simp: base4_region_def Let_def update_same_iff dict_get_def split: option.splits)

lemma base4_region_absorbed_self: "base4_region f r (base4_region f r m) = base4_region f r m"
  unfolding base4_region_absorbed [of f r "base4_region f r m"]
  by (auto simp: base4_region_def Let_def update_conv')

lemma base4_region_absorbed_step:
  assumes "base4_region f r m = m"
  shows "base4_region f r (base4_region g q m) = base4_region g q m"
  using assms unfolding base4_region_absorbed
  by (auto simp: base4_region_def Let_def update_conv' dict_get_def)

lemma base4_region_absorbed_fold:
  assumes "base4_region f r m = m"
  shows "base4_region f r (fold (\<lambda>(f, r). base4_region f r) xs m) = fold (\<lambda>(f, r). base4_region f r) xs m"
  using assms
proof (induction xs arbitrary: m)
  case Nil
  then show ?case by simp
next
  case (Cons x xs)
  obtain g q where x: "x = (g, q)" by (cases x)
  from Cons.prems have "base4_region f r (base4_region g q m) = base4_region g q m"
    by (rule base4_region_absorbed_step)
  from Cons.IH [OF this] x show ?case by simp
qed

lemma fold_base4_absorbs:
  assumes "(f, r) \<in> set xs"
  shows "base4_region f r (fold (\<lambda>(f, r). base4_region f r) xs m) = fold (\<lambda>(f, r). base4_region f r) xs m"
  using assms
proof (induction xs arbitrary: m)
  case Nil
  then show ?case by simp
next
  case (Cons x xs)
  obtain g q where x: "x = (g, q)" by (cases x)
  show ?case
  proof (cases "(f, r) = x")
    case True
    with x have "base4_region f r (base4_region g q m) = base4_region g q m"
      by (simp add: base4_region_absorbed_self)
    from base4_region_absorbed_fold [OF this] x show ?thesis by simp
  next
    case False
    with Cons.prems have "(f, r) \<in> set xs" by simp
    from Cons.IH [OF this] x show ?thesis by simp
  qed
qed

lemma fold_absorbed:
  assumes "\<forall>(f, r) \<in> set xs. step f r m = m"
  shows "fold (\<lambda>(f, r). step f r) xs m = m"
  using assms by (induction xs) auto

lemma fold_base4_twice:
  "fold (\<lambda>(f, r). base4_region f r) xs (fold (\<lambda>(f, r). base4_region f r) xs m)
     = fold (\<lambda>(f, r). base4_region f r) xs m"
  by (rule fold_absorbed) (auto simp: fold_base4_absorbs)

lemma base4_func_any_store:
  assumes "base4_func e fn (mp, s) = Inr (mp', s')"
  shows "\<exists>s2'. base4_func e fn (mp, s2) = Inr (mp', s2')"
  using assms by (auto simp: base4_func_def split: sum.splits if_splits)

lemma base4_funcs_any_store:
  assumes "funcs_loop (base4_func e) fns (mp, s) = Inr (mp', s')"
  shows "\<exists>s2'. funcs_loop (base4_func e) fns (mp, s2) = Inr (mp', s2')"
  using assms
proof (induction fns arbitrary: mp s s2)
  case Nil
  then show ?case by simp
next
  case (Cons fn fns)
  from Cons.prems obtain mp1 s1 where
    a: "base4_func e fn (mp, s) = Inr (mp1, s1)"
    and b: "funcs_loop (base4_func e) fns (mp1, s1) = Inr (mp', s')"
    by (auto split: sum.splits)
  from base4_func_any_store [OF a] obtain t1 where
    c: "base4_func e fn (mp, s2) = Inr (mp1, t1)" by blast
  from Cons.IH [OF b, of t1] c show ?case by simp
qed

lemma base4_collect_result_twice:
  assumes "base4_collect_result e fs fns = Inr (fs1, n1, t1)"
  shows "base4_collect_result e fs1 fns = Inr (fs1, n1, t1)"
proof -
  from base4_collect_result_D [OF assms] obtain S mp T where
    S: "base4_load fs = Inr S"
    and l: "funcs_loop (base4_func e) fns (Map.empty, S) = Inr (mp, T)"
    and fs1: "fs1 = fs(''cov_map.json'' \<mapsto> Dumped T)"
    and n: "n1 = base4_reg_count T" and t: "t1 = base4_reg_total T" by blast
  from base4_funcs_any_store [OF l] obtain T2 where
    l2: "funcs_loop (base4_func e) fns (Map.empty, T) = Inr (mp, T2)" by blast
  from base4_funcs_fold [OF l] base4_funcs_fold [OF l2] fold_base4_twice
  have "T2 = T" by simp
  with l2 fs1 n t show ?thesis
    by (simp add: base4_collect_result_def base4_load_def persist_def)
qed

lemma rulf_region_lookup:
  "map_of (rulf_region f r m) k =
     (if k = region_key f r
      then Some (case map_of m k of Some (ln, c) \<Rightarrow> (ln, c + count r)
                                  | None \<Rightarrow> (led r - lst r + 1, count r))
      else map_of m k)"
  by (auto simp: rulf_region_def Let_def update_conv' split: option.splits)

lemma rulf_region_nonneg:
  assumes "\<forall>k ln c. map_of m k = Some (ln, c) \<longrightarrow> 0 \<le> c" "0 \<le> count r"
  shows "\<forall>k ln c. map_of (rulf_region f r m) k = Some (ln, c) \<longrightarrow> 0 \<le> c"
proof (intro allI impI)
  fix k ln c
  assume a: "map_of (rulf_region f r m) k = Some (ln, c)"
  show "0 \<le> c"
  proof (cases "k = region_key f r")
    case False
    with a assms(1) show ?thesis by (simp add: rulf_region_lookup)
  next
    case True
    show ?thesis
    proof (cases "map_of m k")
      case None
      with a True assms(2) show ?thesis by (simp add: rulf_region_lookup)
    next
      case (Some v)
      obtain ln0 c0 where v: "v = (ln0, c0)" by (cases v)
      with Some assms(1) have "0 \<le> c0" by blast
      with a True Some v assms(2) show ?thesis by (simp add: rulf_region_lookup)
    qed
  qed
qed

lemma fold_rulf_nonneg:
  assumes "\<forall>k ln c. map_of m k = Some (ln, c) \<longrightarrow> 0 \<le> c"
    and "\<forall>(f, r) \<in> set xs. 0 \<le> count r"
  shows "\<forall>k ln c. map_of (fold (\<lambda>(f, r). rulf_region f r) xs m) k = Some (ln, c) \<longrightarrow> 0 \<le> c"
  using assms
proof (induction xs arbitrary: m)
  case Nil
  then show ?case by simp
next
  case (Cons x xs)
  obtain f r where x: "x = (f, r)" by (cases x)
  from Cons.prems(2) x have r: "0 \<le> count r" and xs: "\<forall>(f, r) \<in> set xs. 0 \<le> count r" by auto
  from Cons.IH [OF rulf_region_nonneg [OF Cons.prems(1) r] xs] x show ?case by simp
qed

lemma fold_rulf_grows:
  assumes "map_of m k = Some (ln, c)" "\<forall>(f, r) \<in> set xs. 0 \<le> count r"
  shows "\<exists>c'. map_of (fold (\<lambda>(f, r). rulf_region f r) xs m) k = Some (ln, c') \<and> c \<le> c'"
  using assms
proof (induction xs arbitrary: m c)
  case Nil
  then show ?case by simp
next
  case (Cons x xs)
  obtain f r where x: "x = (f, r)" by (cases x)
  from Cons.prems(2) x have r: "0 \<le> count r" and xs: "\<forall>(f, r) \<in> set xs. 0 \<le> count r" by auto
  from Cons.prems(1) r obtain c1 where
    c1: "map_of (rulf_region f r m) k = Some (ln, c1)" "c \<le> c1"
    by (cases "k = region_key f r") (auto simp: rulf_region_lookup)
  from Cons.IH [OF c1(1) xs] obtain c' where
    "map_of (fold (\<lambda>(f, r). rulf_region f r) xs (rulf_region f r m)) k = Some (ln, c')" "c1 \<le> c'"
    by blast
  with c1(2) x show ?case by auto
qed

lemma fold_rulf_big_enough:
  assumes "\<forall>k ln c. map_of m k = Some (ln, c) \<longrightarrow> 0 \<le> c"
    and "\<forall>(f, r) \<in> set xs. 0 \<le> count r" "(f, r) \<in> set xs"
  shows "\<exists>ln c. map_of (fold (\<lambda>(f, r). rulf_region f r) xs m) (region_key f r) = Some (ln, c) \<and>
           count r \<le> c"
  using assms
proof (induction xs arbitrary: m)
  case Nil
  then show ?case by simp
next
  case (Cons x xs)
  obtain g q where x: "x = (g, q)" by (cases x)
  from Cons.prems(2) x have q: "0 \<le> count q" and xs: "\<forall>(f, r) \<in> set xs. 0 \<le> count r" by auto
  note nn = rulf_region_nonneg [OF Cons.prems(1) q, of g]
  show ?case
  proof (cases "(f, r) = x")
    case True
    with x have fr: "f = g" "r = q" by simp_all
    obtain ln c where c: "map_of (rulf_region g q m) (region_key g q) = Some (ln, c)" "count q \<le> c"
    proof (cases "map_of m (region_key g q)")
      case None
      then have "map_of (rulf_region g q m) (region_key g q) = Some (led q - lst q + 1, count q)"
        by (simp add: rulf_region_lookup)
      then show ?thesis using that by simp
    next
      case (Some v)
      obtain ln0 c0 where v: "v = (ln0, c0)" by (cases v)
      with Some Cons.prems(1) have "0 \<le> c0" by blast
      moreover from Some v have
        "map_of (rulf_region g q m) (region_key g q) = Some (ln0, c0 + count q)"
        by (simp add: rulf_region_lookup)
      ultimately show ?thesis using that by simp
    qed
    from fold_rulf_grows [OF c(1) xs] c(2) fr x show ?thesis by fastforce
  next
    case False
    with Cons.prems(3) have "(f, r) \<in> set xs" by simp
    from Cons.IH [OF nn xs this] x show ?thesis by simp
  qed
qed

lemma same_cover_refl: "list_all2 same_cover A A"
  by (simp add: list_all2_same same_cover_def)

lemma same_cover_update:
  assumes "list_all2 same_cover A B" "map_of A k = Some (ln, c)" "0 \<le> n" "n \<le> c"
  shows "\<exists>c'. map_of B k = Some (ln, c') \<and>
              list_all2 same_cover A (AList.update k (ln, c' + n) B)"
  using assms
proof (induction rule: list_all2_induct)
  case Nil
  then show ?case by simp
next
  case (Cons a A b B)
  obtain ka lna ca where a: "a = (ka, lna, ca)" by (cases a)
  obtain kb lnb cb where b: "b = (kb, lnb, cb)" by (cases b)
  from Cons.hyps(1) a b have ab: "ka = kb" "lna = lnb" "ca \<le> cb" "(ca > 0) = (cb > 0)"
    by (simp_all add: same_cover_def)
  show ?case
  proof (cases "ka = k")
    case True
    with Cons.prems(1) a have lc: "ln = lna" "c = ca" by simp_all
    from True ab b lc have m: "map_of (b # B) k = Some (ln, cb)" by simp
    from True ab b have u: "AList.update k (ln, cb + n) (b # B) = (k, ln, cb + n) # B" by simp
    from True ab lc a Cons.prems(2,3) have "same_cover a (k, ln, cb + n)"
      by (auto simp: same_cover_def)
    with Cons.hyps(2) u have "list_all2 same_cover (a # A) (AList.update k (ln, cb + n) (b # B))"
      by simp
    with m show ?thesis by blast
  next
    case False
    with Cons.prems(1) a have "map_of A k = Some (ln, c)" by simp
    from Cons.IH [OF this Cons.prems(2,3)] obtain c' where
      "map_of B k = Some (ln, c')" "list_all2 same_cover A (AList.update k (ln, c' + n) B)"
      by blast
    with False ab Cons.hyps(1) a b show ?thesis by auto
  qed
qed

lemma same_cover_fold:
  assumes "list_all2 same_cover A B"
    and "\<forall>(f, r) \<in> set ys. 0 \<le> count r \<and>
           (\<exists>ln c. map_of A (region_key f r) = Some (ln, c) \<and> count r \<le> c)"
  shows "list_all2 same_cover A (fold (\<lambda>(f, r). rulf_region f r) ys B)"
  using assms
proof (induction ys arbitrary: B)
  case Nil
  then show ?case by simp
next
  case (Cons y ys)
  obtain f r where y: "y = (f, r)" by (cases y)
  from Cons.prems(2) y obtain ln c where
    r: "0 \<le> count r" and c: "map_of A (region_key f r) = Some (ln, c)" "count r \<le> c"
    and ys: "\<forall>(f, r) \<in> set ys. 0 \<le> count r \<and>
           (\<exists>ln c. map_of A (region_key f r) = Some (ln, c) \<and> count r \<le> c)"
    by auto
  from same_cover_update [OF Cons.prems(1) c(1) r c(2)] obtain c' where
    c': "map_of B (region_key f r) = Some (ln, c')"
    and u: "list_all2 same_cover A (AList.update (region_key f r) (ln, c' + count r) B)"
    by blast
  from c' have "rulf_region f r B = AList.update (region_key f r) (ln, c' + count r) B"
    by (simp add: rulf_region_def)
  with u have "list_all2 same_cover A (rulf_region f r B)" by simp
  from Cons.IH [OF this ys] y show ?case by simp
qed

lemma same_cover_metrics:
  assumes "list_all2 same_cover A B"
  shows "rulf_reg_total A = rulf_reg_total B \<and> rulf_reg_count A = rulf_reg_count B"
  using assms
  by (induction rule: list_all2_induct)
    (auto simp: rulf_reg_total_def rulf_reg_count_def same_cover_def)

lemma rulf_func_succeeds:
  assumes "cache_ok (Inr \<circ> rulf_parse_file) e mp"
  shows "(\<exists>st'. rulf_func e fn (mp, s) = Inr st') \<longleftrightarrow>
         (\<exists>f. filenames fn = [f] \<and> (str_in (cwd e) f \<and> str_in ''src/'' f \<longrightarrow> files e f \<noteq> None))"
proof (cases "first_filename fn")
  case (Inl err)
  then have "\<not> (\<exists>f. filenames fn = [f])" using first_filename_Inr [of fn] by auto
  with Inl show ?thesis by (simp add: rulf_func_def)
next
  case (Inr f)
  then have fs: "filenames fn = [f]" by (simp add: first_filename_Inr)
  show ?thesis
  proof (cases "str_in (cwd e) f \<and> str_in ''src/'' f")
    case False
    with Inr fs show ?thesis by (auto simp: rulf_func_def)
  next
    case True
    show ?thesis
    proof (cases "mp f")
      case None
      with True Inr fs show ?thesis
        by (auto simp: rulf_func_def cached_limit_def split: option.splits)
    next
      case (Some v)
      with assms have "files e f \<noteq> None" by (auto simp: cache_ok_def)
      with Some True Inr fs show ?thesis by (auto simp: rulf_func_def cached_limit_def)
    qed
  qed
qed

lemma rulf_funcs_succeed:
  assumes "cache_ok (Inr \<circ> rulf_parse_file) e mp"
  shows "(\<exists>st'. funcs_loop (rulf_func e) fns (mp, s) = Inr st') \<longleftrightarrow>
         (\<forall>fn \<in> set fns. \<exists>f. filenames fn = [f] \<and>
             (str_in (cwd e) f \<and> str_in ''src/'' f \<longrightarrow> files e f \<noteq> None))"
  using assms
proof (induction fns arbitrary: mp s)
  case Nil
  show ?case by simp
next
  case (Cons fn fns)
  show ?case
  proof (cases "rulf_func e fn (mp, s)")
    case (Inl err)
    with rulf_func_succeeds [OF Cons.prems, of fn s] show ?thesis by auto
  next
    case (Inr st1)
    obtain mp1 s1 where st1: "st1 = (mp1, s1)" by (cases st1)
    from rulf_func_fold [OF Cons.prems] Inr st1 have "cache_ok (Inr \<circ> rulf_parse_file) e mp1"
      by blast
    from Cons.IH [OF this, of s1] rulf_func_succeeds [OF Cons.prems, of fn s] Inr st1
    show ?thesis by auto
  qed
qed

lemma rulf_targets_append:
  "rulf_targets e (xs @ ys) st =
     (case rulf_targets e xs st of Inl err \<Rightarrow> Inl err | Inr st' \<Rightarrow> rulf_targets e ys st')"
  by (induction xs arbitrary: st) (auto split: sum.splits)

lemma rulf_reached_regions:
  assumes "(f, r) \<in> set (rulf_reached e fns)"
  shows "\<exists>fn \<in> set fns. r \<in> set (regions fn)"
  using reached_D [OF assms [unfolded rulf_reached_def]] not_beyond_D by blast

lemma cov_select_again:
  assumes nn: "\<forall>fns \<in> set (exports @ [E]). \<forall>fn \<in> set fns. \<forall>r \<in> set (regions fn). 0 \<le> count r"
    and c1: "cov_select e (exports @ [E]) = Inr (m1, n, t)"
  shows "\<exists>m2. cov_select e (exports @ [E, E]) = Inr (m2, n, t) \<and> list_all2 same_cover m1 m2"
proof -
  let ?pf = "Inr \<circ> rulf_parse_file"
  let ?step = "\<lambda>(f, r). rulf_region f r"
  from cov_select_D [OF c1] obtain mp1 where
    t1: "rulf_targets e (exports @ [E]) (Map.empty, []) = Inr (mp1, m1)"
    and n: "n = rulf_reg_count m1" and t: "t = rulf_reg_total m1" by blast
  from t1 obtain mp0 A0 where
    t0: "rulf_targets e exports (Map.empty, []) = Inr (mp0, A0)"
    and l1: "funcs_loop (rulf_func e) E (mp0, A0) = Inr (mp1, m1)"
    by (auto simp: rulf_targets_append split: sum.splits)
  from rulf_targets_fold [OF cache_ok_empty t0] have ok0: "cache_ok ?pf e mp0"
    and A0: "A0 = fold ?step (concat (map (rulf_reached e) exports)) []" by simp_all
  from rulf_targets_fold [OF cache_ok_empty t1] have ok1: "cache_ok ?pf e mp1" by simp
  from rulf_targets_fold [OF ok0, of "[E]" A0 mp1 m1] l1
  have m1: "m1 = fold ?step (rulf_reached e E) A0" by simp
  \<comment> \<open>the second pass over the export succeeds\<close>
  from l1 rulf_funcs_succeed [OF ok0, of E A0] rulf_funcs_succeed [OF ok1, of E m1]
  obtain st2 where "funcs_loop (rulf_func e) E (mp1, m1) = Inr st2" by blast
  then obtain mp2 m2 where l2: "funcs_loop (rulf_func e) E (mp1, m1) = Inr (mp2, m2)"
    by (cases st2) auto
  from rulf_targets_fold [OF ok1, of "[E]" m1 mp2 m2] l2
  have m2: "m2 = fold ?step (rulf_reached e E) m1" by simp
  \<comment> \<open>the counts are not negative\<close>
  have cnt: "0 \<le> count r" if "(f, r) \<in> set (rulf_reached e fns)" "fns \<in> set (exports @ [E])"
    for f r fns
    using rulf_reached_regions [OF that(1)] that(2) nn by blast
  have xs0: "\<forall>(f, r) \<in> set (concat (map (rulf_reached e) exports)). 0 \<le> count r"
    using cnt by auto
  have xsE: "\<forall>(f, r) \<in> set (rulf_reached e E). 0 \<le> count r"
    using cnt [of _ _ E] by auto
  have "\<forall>k ln c. map_of ([] :: cstore) k = Some (ln, c) \<longrightarrow> 0 \<le> c" by simp
  from fold_rulf_nonneg [OF this xs0]
  have nn0: "\<forall>k ln c. map_of A0 k = Some (ln, c) \<longrightarrow> 0 \<le> c" by (simp add: A0)
  have big: "\<forall>(f, r) \<in> set (rulf_reached e E). 0 \<le> count r \<and>
           (\<exists>ln c. map_of m1 (region_key f r) = Some (ln, c) \<and> count r \<le> c)"
    using fold_rulf_big_enough [OF nn0 xsE] xsE unfolding m1 by blast
  from same_cover_fold [OF same_cover_refl big]
  have sc: "list_all2 same_cover m1 m2" by (simp add: m2)
  from t1 l2 have "rulf_targets e (exports @ [E, E]) (Map.empty, []) = Inr (mp2, m2)"
    using rulf_targets_append [of e "exports @ [E]" "[E]" "(Map.empty, [])"] by simp
  with same_cover_metrics [OF sc] n t have "cov_select e (exports @ [E, E]) = Inr (m2, n, t)"
    by (simp add: cov_select_def)
  with sc show ?thesis by blast
qed

text \<open>
  C3 (as the code has it). Merging the same export a second time leaves the printed
  numbers unchanged. In \<^verbatim>\<open>llm_4_base_cov/main.py\<close> a second \<^verbatim>\<open>collect_result\<close> on the
  same export, starting from the snapshot the first one wrote, writes the same
  snapshot and prints the same pair. In \<^verbatim>\<open>cov_select\<close> there is no guard against
  counting an export twice: every count of the export is added again, so the stored
  counts may grow; when no count is negative the keys, the numbers of lines and which
  entries are positive stay as they are, and so does the printed pair.
\<close>

theorem merge_again:
  "(base4_collect_result e fs fns = Inr (fs1, n1, t1) \<longrightarrow>
      base4_collect_result e fs1 fns = Inr (fs1, n1, t1)) \<and>
   ((\<forall>fns \<in> set (exports @ [E]). \<forall>fn \<in> set fns. \<forall>r \<in> set (regions fn). 0 \<le> count r) \<and>
    cov_select e (exports @ [E]) = Inr (m1, n, t) \<longrightarrow>
      (\<exists>m2. cov_select e (exports @ [E, E]) = Inr (m2, n, t) \<and> list_all2 same_cover m1 m2))"
  using base4_collect_result_twice cov_select_again by blast


theorem merge_again_witness:
  "base4_collect_result ex_env Map.empty [ex_func] =
     Inr (Map.empty(''cov_map.json'' \<mapsto> Dumped [(''/w/src/a.rs/2/1/5/2'', 1)]), 1, 1) \<and>
   base4_collect_result ex_env (Map.empty(''cov_map.json'' \<mapsto> Dumped [(''/w/src/a.rs/2/1/5/2'', 1)]))
       [ex_func] =
     Inr (Map.empty(''cov_map.json'' \<mapsto> Dumped [(''/w/src/a.rs/2/1/5/2'', 1)]), 1, 1) \<and>
   0 \<le> count \<lparr>lst = 2, col_st = 1, led = 5, col_ed = 2, count = 3\<rparr> \<and>
   0 \<le> count \<lparr>lst = 8, col_st = 1, led = 9, col_ed = 2, count = 1\<rparr> \<and>
   cov_select ex_env ([] @ [[ex_func]]) = Inr ([(''/w/src/a.rs/2/1/5/2'', 4, 3)], 1, 1) \<and>
   (\<exists>m2. cov_select ex_env ([] @ [[ex_func], [ex_func]]) = Inr (m2, 1, 1) \<and>
         list_all2 same_cover [(''/w/src/a.rs/2/1/5/2'', 4, 3)] m2)"
proof -
  have a: "base4_collect_result ex_env Map.empty [ex_func] =
     Inr (Map.empty(''cov_map.json'' \<mapsto> Dumped [(''/w/src/a.rs/2/1/5/2'', 1)]), 1, 1)"
    by (simp add: base4_defs ex_defs model_defs)
  have nn: "\<forall>fns \<in> set ([] @ [[ex_func]]). \<forall>fn \<in> set fns. \<forall>r \<in> set (regions fn). 0 \<le> count r"
    by (simp add: ex_func_def)
  have c: "cov_select ex_env ([] @ [[ex_func]]) = Inr ([(''/w/src/a.rs/2/1/5/2'', 4, 3)], 1, 1)"
    by (simp add: rulf_defs ex_defs model_defs)
  note w = merge_again [where e = ex_env and fs = Map.empty and fns = "[ex_func]"
      and ?fs1.0 = "Map.empty(''cov_map.json'' \<mapsto> Dumped [(''/w/src/a.rs/2/1/5/2'', 1)])"
      and ?n1.0 = 1 and ?t1.0 = 1 and exports = "[]" and E = "[ex_func]"
      and ?m1.0 = "[(''/w/src/a.rs/2/1/5/2'', 4, 3)]" and n = 1 and t = 1]
  note b = w [THEN conjunct1, THEN mp, OF a]
  note d = w [THEN conjunct2, THEN mp, OF conjI, OF nn c]
  have p: "0 \<le> count \<lparr>lst = 2, col_st = 1, led = 5, col_ed = 2, count = 3\<rparr>"
    "0 \<le> count \<lparr>lst = 8, col_st = 1, led = 9, col_ed = 2, count = 1\<rparr>" by simp_all
  show ?thesis by (intro conjI a b c d p)
qed

text \<open>
  C3 as the specification words it fails: \<^verbatim>\<open>cov_select\<close> given the example export twice
  stores the count 6 for the region that was executed three times, not 3.
\<close>

theorem merge_again_counterexample:
  "cov_select ex_env [[ex_func]] = Inr ([(''/w/src/a.rs/2/1/5/2'', 4, 3)], 1, 1) \<and>
   cov_select ex_env [[ex_func], [ex_func]] = Inr ([(''/w/src/a.rs/2/1/5/2'', 4, 6)], 1, 1)"
  by (simp add: rulf_defs ex_defs model_defs)

end
